theory Spec2Isabelle
  imports Complex_Main "HOL-Library.Word"
begin

unbundle bit_operations_syntax

section \<open>Bit-packed record codec (util.h, main.cpp, draw.cpp)\<close>

text \<open>
  The L-solver keeps two C \<open>int\<close>s per memo slot.  They are modelled as 32-bit words:
  \<open>|\<close> is \<open>OR\<close>, \<open>&\<close> is \<open>AND\<close>, \<open><<\<close> is \<open>push_bit\<close> (bits shifted past bit 31 are
  lost) and \<open>>>\<close> is \<open>drop_bit\<close>.  The right shifts of the source act on
  \<open>solution & solucao\<close>, whose sign bit is clear, and on \<open>divisionPoint & ptoDivK\<close>, which
  is unsigned because the masks are \<open>unsigned int\<close>; both are logical shifts.
\<close>

type_synonym int32 = "32 word"

definition ptoDiv1 :: int32 where "ptoDiv1 = 2047"
definition ptoDiv2 :: int32 where "ptoDiv2 = 4192256"
definition ptoDiv3 :: int32 where "ptoDiv3 = 4290772992"

definition nRet :: int32 where "nRet = 134217727"
definition solucao :: int32 where "solucao = 2013265920"
definition descSol :: nat where "descSol = 27"

definition descPtoDiv2 :: nat where "descPtoDiv2 = 11"
definition descPtoDiv3 :: nat where "descPtoDiv3 = 22"

text \<open>\<open>(count) | (B << descSol)\<close>, the solution word written by \<open>divideL\<close>, \<open>divideB6\<close>,
  \<open>divideB7\<close> and \<open>solve\<close>.\<close>

definition packSolution :: "int32 \<Rightarrow> int32 \<Rightarrow> int32" where
  "packSolution c B = c OR push_bit descSol B"

text \<open>\<open>i_k[0] | (i_k[1] << descPtoDiv2) | (i_k[2] << descPtoDiv3)\<close>, the division word
  written by \<open>divideB6\<close> and \<open>divideB7\<close>.\<close>

definition packDivisionPoint :: "int32 \<Rightarrow> int32 \<Rightarrow> int32 \<Rightarrow> int32" where
  "packDivisionPoint i0 i1 i2 = i0 OR push_bit descPtoDiv2 i1 OR push_bit descPtoDiv3 i2"

text \<open>The readers: \<open>getSolution\<close> (\<open>solution[L] & nRet\<close>), \<open>drawR\<close>
  (\<open>(solution[L] & solucao) >> descSol\<close>) and \<open>drawB6\<close> (the three \<open>div[]\<close> entries).\<close>

definition getSolution :: "int32 \<Rightarrow> int32" where
  "getSolution s = s AND nRet"

definition divisionType :: "int32 \<Rightarrow> int32" where
  "divisionType s = drop_bit descSol (s AND solucao)"

definition div0 :: "int32 \<Rightarrow> int32" where
  "div0 p = p AND ptoDiv1"

definition div1 :: "int32 \<Rightarrow> int32" where
  "div1 p = drop_bit descPtoDiv2 (p AND ptoDiv2)"

definition div2 :: "int32 \<Rightarrow> int32" where
  "div2 p = drop_bit descPtoDiv3 (p AND ptoDiv3)"


section \<open>Integer sets (sets.cpp)\<close>

text \<open>
  \<open>pack\<close> rejects non-positive dimensions before anything else runs, so lengths and
  coordinates are natural numbers from here on.  A \<open>Set\<close> (\<open>size\<close> plus \<open>points\<close>) is the
  list of its first \<open>size\<close> points; \<open>newSet\<close> only reserves capacity.  An \<open>int\<close> array is a
  list read with \<open>!\<close>; every index the proofs below depend on is shown to be in range.
\<close>

text \<open>\<open>insert\<close>: append the element when the set is empty or its last point is smaller.\<close>

definition insert_set :: "nat \<Rightarrow> nat list \<Rightarrow> nat list" where
  "insert_set element pts =
     (if pts = [] \<or> last pts < element then pts @ [element] else pts)"

text \<open>One iteration of \<open>for (i = l; i <= L; i++) if (c[i] < c[i - l] + l) c[i] = c[i - l] + l\<close>.\<close>

definition conicStep :: "nat \<Rightarrow> nat \<Rightarrow> nat list \<Rightarrow> nat list" where
  "conicStep l i c = (if c ! i < c ! (i - l) + l then c[i := c ! (i - l) + l] else c)"

text \<open>One iteration of the loop that collects the points with \<open>c[i] == i\<close>; the state is
  \<open>(X, inX)\<close>.\<close>

definition collectStep :: "nat list \<Rightarrow> nat \<Rightarrow> nat list \<times> nat list \<Rightarrow> nat list \<times> nat list" where
  "collectStep c i st =
     (case st of (X, inX) \<Rightarrow>
        if c ! i = i \<and> inX ! i = 0 then (X @ [i], inX[i := 1]) else (X, inX))"

definition constructConicCombinations :: "nat \<Rightarrow> nat \<Rightarrow> nat \<Rightarrow> nat list" where
  "constructConicCombinations L l w =
     (let c0 = replicate (L + 2) 0;
          c1 = fold (conicStep l) [l..<Suc L] c0;
          c2 = fold (conicStep w) [w..<Suc L] c1;
          X = fst (fold (collectStep c2) [1..<Suc L] ([0], (replicate (L + 2) 0)[0 := 1]))
      in if last X \<noteq> L then X @ [L] else X)"

text \<open>The inner loop \<open>for (; i < size && points[i] <= j; i++);\<close> of \<open>initialize\<close>.\<close>

function advance :: "nat list \<Rightarrow> nat \<Rightarrow> nat \<Rightarrow> nat" where
  "advance pts j i = (if i < length pts \<and> pts ! i \<le> j then advance pts j (Suc i) else i)"
  by pat_completeness auto
termination
  by (relation "measure (\<lambda>(pts, j, i). length pts - i)") auto

declare advance.simps [simp del]

text \<open>The outer loop \<open>for (j = 0; j <= L; j++) { ...; normalize[j] = points[i - 1]; }\<close>; the
  counter \<open>i\<close> is carried from one \<open>j\<close> to the next.  (\<open>i\<close> is at least 1 here because
  \<open>points[0] = 0\<close>, see \<open>advance_value\<close>.)\<close>

fun normalizeLoop :: "nat list \<Rightarrow> nat list \<Rightarrow> nat \<Rightarrow> nat list" where
  "normalizeLoop pts [] i = []"
| "normalizeLoop pts (j # js) i =
     (let i' = advance pts j i in pts ! (i' - 1) # normalizeLoop pts js i')"

definition buildNormalize :: "nat \<Rightarrow> nat list \<Rightarrow> nat list" where
  "buildNormalize L pts = normalizeLoop pts [0..<Suc L] 0"

text \<open>What \<open>normalize[x] = v\<close> has to satisfy with respect to the point set.\<close>

definition normInv :: "nat list \<Rightarrow> nat \<Rightarrow> nat \<Rightarrow> bool" where
  "normInv pts x v \<longleftrightarrow> v \<in> set pts \<and> v \<le> x \<and> (\<forall>s\<in>set pts. s \<le> x \<longrightarrow> s \<le> v)"

section \<open>Bounds and tables of the five-block solver (bd.cpp)\<close>

text \<open>The two counting loops of \<open>constructRasterPoints\<close>: drop the trailing points above the
  bound.\<close>

definition trimAbove :: "nat \<Rightarrow> nat list \<Rightarrow> nat list" where
  "trimAbove L cc = rev (dropWhile (\<lambda>p. L < p) (rev cc))"

text \<open>\<open>for (i = xSize - 1; i >= 0; i--) { x = normalize[L - cc.points[i]]; insert (x, X); }\<close>\<close>

definition rasterLoop :: "nat list \<Rightarrow> nat \<Rightarrow> nat list \<Rightarrow> nat list" where
  "rasterLoop nrm L cc =
     fold (\<lambda>c X. insert_set (nrm ! (L - c)) X) (rev (trimAbove L cc)) []"

definition constructRasterPoints :: "nat list \<Rightarrow> nat \<Rightarrow> nat \<Rightarrow> nat list \<Rightarrow> nat list \<times> nat list" where
  "constructRasterPoints nrm L W conicCombinations =
     (rasterLoop nrm L conicCombinations, rasterLoop nrm W conicCombinations)"

definition lowerBound_macro :: "nat \<Rightarrow> nat \<Rightarrow> nat \<Rightarrow> nat \<Rightarrow> int" where
  "lowerBound_macro L W l w = int (max ((L div l) * (W div w)) ((L div w) * (W div l)))"

text \<open>C's \<open>/\<close> truncates towards zero.\<close>

definition cdiv :: "int \<Rightarrow> int \<Rightarrow> int" where
  "cdiv a b = (if (a < 0) = (b < 0) then \<bar>a\<bar> div \<bar>b\<bar> else - (\<bar>a\<bar> div \<bar>b\<bar>))"

definition barnesBound :: "nat \<Rightarrow> nat \<Rightarrow> nat \<Rightarrow> nat \<Rightarrow> int" where
  "barnesBound L W l w =
     (let minWaste = (L * W) mod (l * w);
          A = min ((L mod l) * (W mod l)) ((l - L mod l) * (l - W mod l));
          B = min ((L mod w) * (W mod w)) ((w - L mod w) * (w - W mod w));
          maxAB = max A B;
          D = (if minWaste \<ge> maxAB mod (l * w)
               then (maxAB div (l * w)) * (l * w) + minWaste
               else (maxAB div (l * w) + 1) * (l * w) + minWaste)
      in cdiv (int (L * W) - int D) (int (l * w)))"

text \<open>The first merging loop of \<open>initialize\<close> (and of \<open>makeIndices\<close>).  It returns the merged
  points and what is left of \<open>X\<close>.\<close>

fun mergeRaster :: "nat \<Rightarrow> nat \<Rightarrow> nat list \<Rightarrow> nat list \<Rightarrow> nat list \<Rightarrow> nat list \<times> nat list" where
  "mergeRaster L_n W_n (x # xs) (y # ys) acc =
     (if x \<le> L_n \<and> y \<le> W_n then
        (if x = y then mergeRaster L_n W_n xs ys (acc @ [x])
         else if x < y then mergeRaster L_n W_n xs (y # ys) (acc @ [x])
         else mergeRaster L_n W_n (x # xs) ys (acc @ [y]))
      else (acc, x # xs))"
| "mergeRaster L_n W_n xs ys acc = (acc, xs)"

text \<open>The second loop: \<open>while (i < X.size && X.points[i] <= L_n)\<close>, appending the points
  above the last one.\<close>

fun drainRaster :: "nat \<Rightarrow> nat list \<Rightarrow> nat list \<Rightarrow> nat list" where
  "drainRaster L_n [] acc = acc"
| "drainRaster L_n (x # xs) acc =
     (if x \<le> L_n then drainRaster L_n xs (if last acc < x then acc @ [x] else acc)
      else acc)"

definition mergedPoints :: "nat \<Rightarrow> nat \<Rightarrow> nat list \<Rightarrow> nat list \<Rightarrow> nat list" where
  "mergedPoints L_n W_n X Y =
     (let (acc, restX) = mergeRaster L_n W_n X Y [];
          acc2 = drainRaster L_n restX acc;
          acc3 = (if acc2 \<noteq> [] \<and> last acc2 < L_n then acc2 @ [L_n] else acc2)
      in acc3 @ [L_n + 1])"

text \<open>\<open>for (i = 0; i < size; i++) index[points[i]] = i\<close> on a freshly allocated array: a
  cell that was never written has no value.\<close>

definition buildIndex :: "nat list \<Rightarrow> nat \<Rightarrow> (nat \<rightharpoonup> nat)" where
  "buildIndex pts n = fold (\<lambda>i m. m(pts ! i \<mapsto> i)) [0..<n] Map.empty"

record CutPoint =
  cx1 :: nat
  cx2 :: nat
  cy1 :: nat
  cy2 :: nat
  homogeneous :: nat

record globals =
  normalize :: "nat list"
  normalSetX :: "nat list"
  indexX :: "nat \<rightharpoonup> nat"
  indexY :: "nat \<rightharpoonup> nat"
  depthN :: int
  lowerBound :: "int list list"
  upperBound :: "int list list"
  solutionDepth :: "int list list"
  reachedLimit :: "int list list"
  cutPoints :: "CutPoint list list"
  lbWrites :: "(nat \<times> nat \<times> int \<times> int) list"

definition initialize :: "int \<Rightarrow> nat \<Rightarrow> nat \<Rightarrow> nat \<Rightarrow> nat \<Rightarrow> globals" where
  "initialize N L W l w =
     (let X0 = constructConicCombinations L l w;
          nrm = buildNormalize L X0;
          L_n = nrm ! L;
          W_n = nrm ! W;
          (rasterX, rasterY) = constructRasterPoints nrm L W X0;
          pts = mergedPoints L_n W_n rasterX rasterY;
          ySize = length (takeWhile (\<lambda>p. p \<le> W_n) pts);
          ys = take ySize pts
      in \<lparr> normalize = nrm, normalSetX = pts,
           indexX = buildIndex pts (length pts), indexY = buildIndex pts ySize,
           depthN = N,
           lowerBound = map (\<lambda>x. map (\<lambda>y. lowerBound_macro x y l w) ys) pts,
           upperBound = map (\<lambda>x. map (\<lambda>y. barnesBound x y l w) ys) pts,
           solutionDepth = map (\<lambda>x. map (\<lambda>y. N) ys) pts,
           reachedLimit = map (\<lambda>x. map (\<lambda>y. 1) ys) pts,
           cutPoints = map (\<lambda>x. map (\<lambda>y. \<lparr>cx1 = 0, cx2 = 0, cy1 = 0, cy2 = 0, homogeneous = 1\<rparr>) ys) pts,
           lbWrites = [] \<rparr>)"


definition idx :: "(nat \<rightharpoonup> nat) \<Rightarrow> nat \<Rightarrow> nat" where
  "idx m x = the (m x)"

definition set2 :: "'a list list \<Rightarrow> nat \<Rightarrow> nat \<Rightarrow> 'a \<Rightarrow> 'a list list" where
  "set2 t i j v = t[i := (t ! i)[j := v]]"

definition localUpperBound :: "globals \<Rightarrow> nat \<Rightarrow> nat \<Rightarrow> int" where
  "localUpperBound g iX iY =
     (if solutionDepth g ! iX ! iY = -1 then lowerBound g ! iX ! iY else upperBound g ! iX ! iY)"

definition storeCutPoint :: "globals \<Rightarrow> nat \<Rightarrow> nat \<Rightarrow> nat \<Rightarrow> nat \<Rightarrow> nat \<Rightarrow> nat \<Rightarrow> globals" where
  "storeCutPoint g L W x1 x2 y1 y2 =
     g\<lparr>cutPoints := set2 (cutPoints g) (idx (indexX g) L) (idx (indexY g) W)
          \<lparr>cx1 = x1, cx2 = x2, cy1 = y1, cy2 = y2, homogeneous = 0\<rparr>\<rparr>"

text \<open>An assignment \<open>lowerBound[i][j] = v\<close> made after \<open>initialize\<close>.  \<open>lbWrites\<close> is a ghost
  trace: it records the cell, the value replaced and the value stored.\<close>

definition writeLowerBound :: "globals \<Rightarrow> nat \<Rightarrow> nat \<Rightarrow> int \<Rightarrow> globals" where
  "writeLowerBound g i j v =
     g\<lparr>lowerBound := set2 (lowerBound g) i j v,
       lbWrites := lbWrites g @ [(i, j, lowerBound g ! i ! j, v)]\<rparr>"

text \<open>The solved-with-optimality exit shared by both branches of \<open>solve\<close>.\<close>

definition markOptimal :: "globals \<Rightarrow> nat \<Rightarrow> nat \<Rightarrow> globals" where
  "markOptimal g L W =
     g\<lparr>solutionDepth := set2 (solutionDepth g) (idx (indexX g) L) (idx (indexY g) W) (- 1),
       reachedLimit := set2 (reachedLimit g) (idx (indexX g) L) (idx (indexY g) W) 0\<rparr>"

text \<open>The first loop of \<open>solve\<close>: normalize a partition and order it so that \<open>L_i >= W_i\<close>.\<close>

definition normalizeBlock :: "globals \<Rightarrow> nat \<times> nat \<Rightarrow> nat \<times> nat" where
  "normalizeBlock g b =
     (let Li = normalize g ! fst b; Wi = normalize g ! snd b
      in if Li < Wi then (Wi, Li) else (Li, Wi))"

type_synonym bdfun = "nat \<Rightarrow> nat \<Rightarrow> int \<Rightarrow> globals \<Rightarrow> (int \<times> globals) option"

text \<open>The loop \<open>for (i = 1; i <= numBlocks; i++)\<close> of the branch \<open>n < N\<close>.  Each block carries
  the bounds \<open>zi_lb[i]\<close>, \<open>zi_ub[i]\<close> read before the loop.  \<open>bd\<close> is the recursive call
  \<open>BD (L_[i], W_[i], l, w, n + 1)\<close>; \<open>None\<close> means that it did not return.\<close>

fun solveBlocks :: "bdfun \<Rightarrow> nat \<Rightarrow> nat \<Rightarrow> int \<Rightarrow> int \<Rightarrow> nat \<times> nat \<times> nat \<times> nat \<Rightarrow>
    (nat \<times> nat \<times> int \<times> int) list \<Rightarrow> int \<Rightarrow> int \<Rightarrow> int \<Rightarrow> globals \<Rightarrow>
    (bool \<times> int \<times> globals) option" where
  "solveBlocks bd L W n z_ub cpt [] S_lb S_ub z_lb g = Some (False, z_lb, g)"
| "solveBlocks bd L W n z_ub cpt ((Li, Wi, zi_lb, zi_ub) # bs) S_lb S_ub z_lb g =
     (let iX = idx (indexX g) Li; iY = idx (indexY g) Wi in
      case (if solutionDepth g ! iX ! iY > n then
              (case bd Li Wi (n + 1) g of
                 None \<Rightarrow> None
               | Some (z, g1) \<Rightarrow>
                   let g2 = writeLowerBound g1 iX iY z
                   in Some (z, g2\<lparr>solutionDepth := set2 (solutionDepth g2) iX iY
                                    (if reachedLimit g2 ! iX ! iY = 0 then - 1 else n)\<rparr>))
            else Some (lowerBound g ! iX ! iY, g)) of
        None \<Rightarrow> None
      | Some (z, g3) \<Rightarrow>
          let g4 = (if reachedLimit g3 ! iX ! iY = 1
                    then g3\<lparr>reachedLimit := set2 (reachedLimit g3) (idx (indexX g3) L) (idx (indexY g3) W) 1\<rparr>
                    else g3);
              S_lb' = S_lb - zi_lb + z;
              S_ub' = S_ub - zi_ub + z
          in if z_lb \<ge> S_ub' then Some (False, z_lb, g4)
             else if S_lb' > z_lb then
               (case cpt of (x1, x2, y1, y2) \<Rightarrow>
                  let g5 = storeCutPoint g4 L W x1 x2 y1 y2
                  in if S_lb' = z_ub then Some (True, S_lb', markOptimal g5 L W)
                     else solveBlocks bd L W n z_ub cpt bs S_lb' S_ub' S_lb' g5)
             else solveBlocks bd L W n z_ub cpt bs S_lb' S_ub' z_lb g4)"

text \<open>\<open>solve\<close>: the blocks are \<open>(L_[1], W_[1]) .. (L_[numBlocks], W_[numBlocks])\<close>; the result is
  the returned flag, the updated \<open>*z_lb\<close> and the globals.\<close>

definition solve :: "bdfun \<Rightarrow> nat \<Rightarrow> nat \<Rightarrow> int \<Rightarrow> (nat \<times> nat) list \<Rightarrow> int \<Rightarrow> int \<Rightarrow>
    nat \<times> nat \<times> nat \<times> nat \<Rightarrow> globals \<Rightarrow> (bool \<times> int \<times> globals) option" where
  "solve bd L W n blocks z_lb z_ub cpt g =
     (let bs = map (normalizeBlock g) blocks;
          ixs = map (\<lambda>b. (idx (indexX g) (fst b), idx (indexY g) (snd b))) bs
      in if n < depthN g then
           (let zs = map (\<lambda>(iX, iY). (lowerBound g ! iX ! iY, localUpperBound g iX iY)) ixs;
                S_lb = sum_list (map fst zs);
                S_ub = sum_list (map snd zs)
            in if z_lb < S_ub
               then solveBlocks bd L W n z_ub cpt
                      (map (\<lambda>(b, z). (fst b, snd b, fst z, snd z)) (zip bs zs)) S_lb S_ub z_lb g
               else Some (False, z_lb, g))
         else
           (let g1 = g\<lparr>reachedLimit := set2 (reachedLimit g) (idx (indexX g) L) (idx (indexY g) W) 1\<rparr>;
                S_lb = sum_list (map (\<lambda>(iX, iY). lowerBound g1 ! iX ! iY) ixs)
            in if S_lb > z_lb then
                 (case cpt of (x1, x2, y1, y2) \<Rightarrow>
                    let g2 = storeCutPoint g1 L W x1 x2 y1 y2
                    in if S_lb = z_ub then Some (True, S_lb, markOptimal g2 L W)
                       else Some (False, S_lb, g2))
               else Some (False, z_lb, g1)))"

text \<open>The cpt points tried by \<open>BD\<close>, in the order of its loops.  Every loop bound and the
  \<open>break\<close> depend on the raster points and on \<open>(L, W)\<close> only, so the candidates are listed
  first; each carries its partitions \<open>(L_[i], W_[i])\<close>.\<close>

definition nonGuillotineCuts :: "nat \<Rightarrow> nat \<Rightarrow> nat list \<Rightarrow> nat list \<Rightarrow>
    ((nat \<times> nat) list \<times> nat \<times> nat \<times> nat \<times> nat) list" where
  "nonGuillotineCuts L W rasterX rasterY =
     concat (map (\<lambda>index_x1. let x1 = rasterX ! index_x1 in
       concat (map (\<lambda>index_x2. let x2 = rasterX ! index_x2 in
         concat (map (\<lambda>index_y1. let y1 = rasterY ! index_y1 in
           map (\<lambda>index_y2. let y2 = rasterY ! index_y2 in
                  ([(x1, W - y1), (L - x1, W - y2), (x2 - x1, y2 - y1), (x2, y1), (L - x2, y2)],
                   x1, x2, y1, y2))
             (takeWhile (\<lambda>index_y2. rasterY ! index_y2 < W \<and>
                            \<not> (x1 + x2 = L \<and> y1 + rasterY ! index_y2 > W))
                [index_y1 + 1..<length rasterY]))
           (takeWhile (\<lambda>index_y1. rasterY ! index_y1 < W) [1..<length rasterY])))
         (takeWhile (\<lambda>index_x2. rasterX ! index_x2 + x1 \<le> L) [index_x1 + 1..<length rasterX])))
       (takeWhile (\<lambda>index_x1. rasterX ! index_x1 \<le> L div 2) [1..<length rasterX]))"

definition verticalCuts :: "nat \<Rightarrow> nat \<Rightarrow> nat list \<Rightarrow>
    ((nat \<times> nat) list \<times> nat \<times> nat \<times> nat \<times> nat) list" where
  "verticalCuts L W rasterX =
     map (\<lambda>index_x1. let x1 = rasterX ! index_x1 in
            ([(x1, W - 0), (L - x1, W - 0)], x1, x1, 0, 0))
       (takeWhile (\<lambda>index_x1. rasterX ! index_x1 \<le> L div 2) [1..<length rasterX])"

definition horizontalCuts :: "nat \<Rightarrow> nat \<Rightarrow> nat list \<Rightarrow>
    ((nat \<times> nat) list \<times> nat \<times> nat \<times> nat \<times> nat) list" where
  "horizontalCuts L W rasterY =
     map (\<lambda>index_y1. let y1 = rasterY ! index_y1 in
            ([(L - 0, W - y1), (L - 0, y1)], 0, 0, y1, y1))
       (takeWhile (\<lambda>index_y1. rasterY ! index_y1 \<le> W div 2) [1..<length rasterY])"

text \<open>The three loop nests of \<open>BD\<close> run over the candidates; \<open>solved\<close> returns at once.\<close>

fun BD_loop :: "bdfun \<Rightarrow> nat \<Rightarrow> nat \<Rightarrow> int \<Rightarrow> int \<Rightarrow>
    ((nat \<times> nat) list \<times> nat \<times> nat \<times> nat \<times> nat) list \<Rightarrow> int \<Rightarrow> globals \<Rightarrow>
    (int \<times> globals) option" where
  "BD_loop bd L W n z_ub [] z_lb g = Some (z_lb, g)"
| "BD_loop bd L W n z_ub ((blocks, cpt) # cs) z_lb g =
     (case solve bd L W n blocks z_lb z_ub cpt g of
        None \<Rightarrow> None
      | Some (solved, z_lb', g') \<Rightarrow>
          if solved then Some (z_lb', g') else BD_loop bd L W n z_ub cs z_lb' g')"

definition BD_body :: "bdfun \<Rightarrow> bdfun" where
  "BD_body bd L0 W0 n g =
     (let (L, W) = (if W0 > L0 then (W0, L0) else (L0, W0));
          iL = idx (indexX g) L; iW = idx (indexY g) W;
          z_lb = lowerBound g ! iL ! iW;
          z_ub = localUpperBound g iL iW
      in if z_lb = 0 \<or> z_lb = z_ub then Some (z_lb, markOptimal g L W)
         else
           (let (rasterX, rasterY) = constructRasterPoints (normalize g) L W (normalSetX g);
                g1 = g\<lparr>reachedLimit := set2 (reachedLimit g) iL iW 0\<rparr>
            in BD_loop bd L W n z_ub
                 (nonGuillotineCuts L W rasterX rasterY @ verticalCuts L W rasterX
                    @ horizontalCuts L W rasterY) z_lb g1))"

text \<open>\<open>BD\<close> with its recursion depth made explicit: \<open>BD k\<close> may nest \<open>k\<close> calls.  The source
  recurses only while \<open>n < N\<close> and with \<open>n + 1\<close>, so \<open>Suc (nat (N - n))\<close> is always enough
  (lemma \<open>BD_returns\<close>).\<close>

fun BD :: "nat \<Rightarrow> bdfun" where
  "BD 0 = (\<lambda>L W n g. None)"
| "BD (Suc k) = BD_body (BD k)"

definition INFINITY_C :: int where "INFINITY_C = 2000000000"

definition solve_BD :: "nat \<Rightarrow> nat \<Rightarrow> nat \<Rightarrow> nat \<Rightarrow> int \<Rightarrow> (int \<times> globals) option" where
  "solve_BD L0 W0 l w N_max =
     (let N = (if N_max \<le> 0 then INFINITY_C else N_max);
          (L, W) = (if W0 > L0 then (W0, L0) else (L0, W0));
          g = initialize N L W l w;
          L_n = normalize g ! L;
          W_n = normalize g ! W
      in case BD (Suc (nat (N - N))) L_n W_n N g of
           None \<Rightarrow> None
         | Some (solution, g1) \<Rightarrow>
             Some (solution, writeLowerBound g1 (idx (indexX g1) L_n) (idx (indexY g1) W_n) solution))"


text \<open>What a call at the depth cap leaves unchanged.\<close>

definition sameBounds :: "globals \<Rightarrow> globals \<Rightarrow> bool" where
  "sameBounds g g' \<longleftrightarrow> lowerBound g' = lowerBound g \<and> lbWrites g' = lbWrites g \<and>
     indexX g' = indexX g \<and> indexY g' = indexY g \<and> depthN g' = depthN g \<and>
     normalize g' = normalize g \<and> normalSetX g' = normalSetX g"


section \<open>Reconstruction of the five-block solution (draw\_bd.cpp, draw.cpp)\<close>

definition HORIZONTAL :: nat where "HORIZONTAL = 0"
definition VERTICAL :: nat where "VERTICAL = 1"

definition boxOrientation :: "nat \<Rightarrow> nat \<Rightarrow> nat \<Rightarrow> nat \<Rightarrow> nat" where
  "boxOrientation l w x y =
     (let a = (x div l) * (y div w); b = (x div w) * (y div l)
      in if a > b then HORIZONTAL else VERTICAL)"

text \<open>A row of \<open>ptoRet\<close>: the corners \<open>(x0, y0, x1, y1)\<close> of a box.  The rows are written at
  \<open>boxesDrawn\<close>, one after the other, so the rows written so far are a list.\<close>

type_synonym box = "nat \<times> nat \<times> nat \<times> nat"

text \<open>\<open>for (i = 0; i + a <= x; i += a) for (j = 0; j + b <= y; j += b)\<close> visits \<open>i = p * a\<close> for
  \<open>p < x div a\<close> and \<open>j = q * b\<close> for \<open>q < y div b\<close> (the box sides are positive).\<close>

definition gridBoxes :: "nat \<Rightarrow> nat \<Rightarrow> nat \<Rightarrow> nat \<Rightarrow> nat \<Rightarrow> nat \<Rightarrow> box list" where
  "gridBoxes a b x y dx dy =
     concat (map (\<lambda>p. map (\<lambda>q. (p * a + dx, q * b + dy, p * a + a + dx, q * b + b + dy))
                          [0..<y div b]) [0..<x div a])"

definition drawHomogeneous :: "nat \<Rightarrow> nat \<Rightarrow> nat \<Rightarrow> nat \<Rightarrow> nat \<Rightarrow> nat \<Rightarrow> box list" where
  "drawHomogeneous l w x y dx dy =
     (if boxOrientation l w x y = HORIZONTAL then gridBoxes l w x y dx dy
      else gridBoxes w l x y dx dy)"

text \<open>\<open>getSubproblems\<close>: the pairs \<open>(L_[i], W_[i])\<close> for \<open>i = 1 .. 5\<close>.\<close>

definition getSubproblems :: "globals \<Rightarrow> CutPoint \<Rightarrow> nat \<Rightarrow> nat \<Rightarrow> (nat \<times> nat) list" where
  "getSubproblems g cutPoint L W =
     (let x1 = cx1 cutPoint; x2 = cx2 cutPoint; y1 = cy1 cutPoint; y2 = cy2 cutPoint
      in [(x1, normalize g ! (W - y1)),
          (normalize g ! (L - x1), normalize g ! (W - y2)),
          (normalize g ! (x2 - x1), normalize g ! (y2 - y1)),
          (x2, y1),
          (normalize g ! (L - x2), y2)])"

type_synonym drawfun = "nat \<Rightarrow> nat \<Rightarrow> nat \<Rightarrow> nat \<Rightarrow> box list \<Rightarrow> box list option"

text \<open>The loop \<open>for (i = 1; i <= 5; i++)\<close> of \<open>drawNormal\<close> and \<open>drawRotation\<close>: each entry is
  the call \<open>draw (L_[i], W_[i], dx_i, dy_i)\<close> of case \<open>i\<close>, made when the block is not empty
  and is not the rectangle \<open>(L, W)\<close> itself.\<close>

fun drawBlocks :: "drawfun \<Rightarrow> nat \<Rightarrow> nat \<Rightarrow> (nat \<times> nat \<times> nat \<times> nat) list \<Rightarrow> box list \<Rightarrow>
    box list option" where
  "drawBlocks dr L W [] out = Some out"
| "drawBlocks dr L W ((Li, Wi, dxi, dyi) # bs) out =
     (if Li \<noteq> 0 \<and> Wi \<noteq> 0 \<and> \<not> ((Li = L \<and> Wi = W) \<or> (Li = W \<and> Wi = L))
      then (case dr Li Wi dxi dyi out of None \<Rightarrow> None | Some out' \<Rightarrow> drawBlocks dr L W bs out')
      else drawBlocks dr L W bs out)"

definition drawNormal :: "drawfun \<Rightarrow> globals \<Rightarrow> nat \<Rightarrow> nat \<Rightarrow> drawfun" where
  "drawNormal dr g l w L W dx dy out =
     (let iX = idx (indexX g) L; iY = idx (indexY g) W
      in if homogeneous (cutPoints g ! iX ! iY) \<noteq> 0
         then Some (out @ drawHomogeneous l w L W dx dy)
         else (case getSubproblems g (cutPoints g ! iX ! iY) L W of
                 [(L1, W1), (L2, W2), (L3, W3), (L4, W4), (L5, W5)] \<Rightarrow>
                   drawBlocks dr L W
                     [(L1, W1, dx, dy + W4), (L2, W2, dx + L1, dy + W5),
                      (L3, W3, dx + L1, dy + W4), (L4, W4, dx, dy), (L5, W5, dx + L4, dy)] out
               | _ \<Rightarrow> None))"

text \<open>\<open>drawRotation\<close> swaps \<open>L\<close> and \<open>W\<close> first (\<open>Ls\<close>, \<open>Ws\<close> below); block \<open>i\<close> is drawn with its
  sides swapped, at an offset built from the unswapped sides of the other blocks.\<close>

definition drawRotation :: "drawfun \<Rightarrow> globals \<Rightarrow> nat \<Rightarrow> nat \<Rightarrow> drawfun" where
  "drawRotation dr g l w L W dx dy out =
     (let Ls = W; Ws = L; iX = idx (indexX g) Ls; iY = idx (indexY g) Ws
      in if homogeneous (cutPoints g ! iX ! iY) \<noteq> 0
         then Some (out @ drawHomogeneous l w L W dx dy)
         else (case getSubproblems g (cutPoints g ! iX ! iY) Ls Ws of
                 [(L1, W1), (L2, W2), (L3, W3), (L4, W4), (L5, W5)] \<Rightarrow>
                   drawBlocks dr Ls Ws
                     [(W1, L1, dx + W4, dy + L2), (W2, L2, dx + W5, dy),
                      (W3, L3, dx + W4, dy + L5), (W4, L4, dx, dy + L5), (W5, L5, dx, dy)] out
               | _ \<Rightarrow> None))"

definition draw_body :: "drawfun \<Rightarrow> globals \<Rightarrow> nat \<Rightarrow> nat \<Rightarrow> drawfun" where
  "draw_body dr g l w L W dx dy out =
     (if L \<ge> W then drawNormal dr g l w L W dx dy out else drawRotation dr g l w L W dx dy out)"

text \<open>\<open>draw (L, W, dx, dy)\<close> of draw\_bd.cpp with its nesting depth made explicit: \<open>None\<close> when
  more than \<open>k\<close> calls nest.\<close>

fun draw :: "nat \<Rightarrow> globals \<Rightarrow> nat \<Rightarrow> nat \<Rightarrow> drawfun" where
  "draw 0 g l w = (\<lambda>L W dx dy out. None)"
| "draw (Suc k) g l w = draw_body (draw k g l w) g l w"

text \<open>\<open>drawBD (L, W, ret)\<close> sets \<open>boxesDrawn = ret\<close>, draws and returns \<open>boxesDrawn\<close>.\<close>

definition drawBD :: "nat \<Rightarrow> globals \<Rightarrow> nat \<Rightarrow> nat \<Rightarrow> nat \<Rightarrow> nat \<Rightarrow> box list \<Rightarrow> box list option" where
  "drawBD k g l w L W out = draw k g l w L W 0 0 out"

section \<open>The entry point (main.cpp)\<close>

datatype error = InvalidDimensions

text \<open>An entry of the JSON list: the centre \<open>(x, y)\<close> and the \<open>rotated\<close> flag.  The centre
  \<open>(xl - xh) / 2.0 + xh\<close> is a half-integer; it is a rational number here.\<close>

type_synonym placement = "rat \<times> rat \<times> bool"

definition placementOf :: "nat \<Rightarrow> nat \<Rightarrow> bool \<Rightarrow> box \<Rightarrow> placement" where
  "placementOf l w swap b = (case b of (x0, y0, x1, y1) \<Rightarrow>
     let sym = (int l - int w = 0);
         cmp = (if swap then l else w);
         rotated = (if sym then False else \<not> (int y1 - int y0 - int cmp = 0));
         x = (rat_of_nat x1 - rat_of_nat x0) / 2 + rat_of_nat x0;
         y = (rat_of_nat y1 - rat_of_nat y0) / 2 + rat_of_nat y0
     in (if swap then x else y, if swap then y else x, rotated))"

text \<open>\<open>MakeJsonString\<close> reads the rows \<open>ptoRet[0 .. n - 1]\<close>.\<close>

definition MakeJsonString :: "box list \<Rightarrow> nat \<Rightarrow> nat \<Rightarrow> nat \<Rightarrow> bool \<Rightarrow> placement list" where
  "MakeJsonString ptoRet n l w swap = map (\<lambda>i. placementOf l w swap (ptoRet ! i)) [0..<n]"

text \<open>\<open>pack\<close>: \<open>Inl\<close> is the \<open>NULL\<close> returned for invalid dimensions.  \<open>k\<close> bounds the nesting
  of \<open>draw\<close>; the result is \<open>None\<close> if that bound is hit.\<close>

definition pack :: "nat \<Rightarrow> int \<Rightarrow> int \<Rightarrow> int \<Rightarrow> int \<Rightarrow> (error + placement list) option" where
  "pack k inL inW inl inw =
     (if inL \<le> 0 \<or> inW \<le> 0 \<or> inl \<le> 0 \<or> inw \<le> 0 then Some (Inl InvalidDimensions)
      else
        (let swap = (inL < inW);
             L = nat (if swap then inW else inL);
             W = nat (if swap then inL else inW);
             l = nat inl; w = nat inw
         in case solve_BD L W l w 0 of
              None \<Rightarrow> None
            | Some (BD_solution, g) \<Rightarrow>
                (let L_n = normalize g ! L; W_n = normalize g ! W
                 in case drawBD k g l w L_n W_n [] of
                      None \<Rightarrow> None
                    | Some ptoRet \<Rightarrow>
                        Some (Inr (MakeJsonString ptoRet (nat BD_solution) l w swap)))))"


section \<open>Lower bounds of L-pieces (main.cpp, draw.cpp)\<close>

text \<open>An L-piece \<open>int q[4]\<close> is the tuple \<open>(q[0], q[1], q[2], q[3])\<close>.\<close>

type_synonym piece = "nat \<times> nat \<times> nat \<times> nat"

definition HORIZONTAL_CUT :: nat where "HORIZONTAL_CUT = 0"
definition VERTICAL_CUT :: nat where "VERTICAL_CUT = 1"

definition R_LowerBound :: "globals \<Rightarrow> nat \<Rightarrow> nat \<Rightarrow> int" where
  "R_LowerBound g x y =
     lowerBound g ! idx (indexX g) (normalize g ! x) ! idx (indexY g) (normalize g ! y)"

text \<open>The two sums compared by \<open>L_LowerBound\<close>: \<open>a\<close> cuts the piece horizontally at \<open>y = q[3]\<close>,
  \<open>b\<close> vertically at \<open>x = q[2]\<close>.\<close>

definition horizontalSum :: "globals \<Rightarrow> piece \<Rightarrow> int" where
  "horizontalSum g q = (case q of (q0, q1, q2, q3) \<Rightarrow>
     lowerBound g ! idx (indexX g) (normalize g ! q2) ! idx (indexY g) (normalize g ! (q1 - q3))
     + lowerBound g ! idx (indexX g) (normalize g ! q0) ! idx (indexY g) (normalize g ! q3))"

definition verticalSum :: "globals \<Rightarrow> piece \<Rightarrow> int" where
  "verticalSum g q = (case q of (q0, q1, q2, q3) \<Rightarrow>
     lowerBound g ! idx (indexX g) (normalize g ! q2) ! idx (indexY g) (normalize g ! q1)
     + lowerBound g ! idx (indexX g) (normalize g ! (q0 - q2)) ! idx (indexY g) (normalize g ! q3))"

text \<open>\<open>L_LowerBound (q, &horizontalCut)\<close> returns the bound and sets the flag.\<close>

definition L_LowerBound :: "globals \<Rightarrow> piece \<Rightarrow> int \<times> bool" where
  "L_LowerBound g q =
     (let a = horizontalSum g q; b = verticalSum g q
      in if a > b then (a, True) else (b, False))"

definition LCut :: "globals \<Rightarrow> piece \<Rightarrow> nat" where
  "LCut g q = (case q of (q0, q1, q2, q3) \<Rightarrow>
     let a = R_LowerBound g q2 q1 + R_LowerBound g (q0 - q2) q3;
         b = R_LowerBound g q2 (q1 - q3) + R_LowerBound g q0 q3
     in if a > b then VERTICAL_CUT else HORIZONTAL_CUT)"


section \<open>L-pieces (util.cpp)\<close>

text \<open>\<open>normalizePiece\<close> marks a piece whose area is below the area of the box by
  \<open>q[0] = -1\<close>; that is \<open>None\<close> here.  The area test is made on C integers.\<close>

definition normalizePiece :: "nat \<Rightarrow> nat \<Rightarrow> piece \<Rightarrow> piece option" where
  "normalizePiece l w q = (case q of (q0, q1, q2, q3) \<Rightarrow>
     let (i, j, i1, j1) =
           (if q2 = 0 then (q0, q3, q0, q3)
            else if q3 = 0 then (q2, q1, q2, q1)
            else if q2 = q0 \<or> q3 = q1 then (q0, q1, q0, q1)
            else (q0, q1, q2, q3))
     in if int i * int j - (int i - int i1) * (int j - int j1) < int (l * w) then None
        else
          (let (i, j, i1, j1) = (if i = i1 \<and> j = j1 \<and> i < j then (j, i, j1, i1) else (i, j, i1, j1))
           in if 0 < i1 \<and> i1 < i \<and> 0 < j1 \<and> j1 < j \<and> i < j then Some (j, i, j1, i1)
              else if 0 < i1 \<and> i1 < i \<and> 0 < j1 \<and> j1 < j \<and> i = j \<and> i1 < j1 then Some (i, j, j1, i1)
              else Some (i, j, i1, j1)))"

text \<open>The nine subdivisions.  \<open>i\<close> is \<open>(i[0], i[1], i[2])\<close>; the result is \<open>(q1, q2)\<close>.\<close>

type_synonym divpoint = "nat \<times> nat \<times> nat"

definition standardPositionB1 :: "nat list \<Rightarrow> divpoint \<Rightarrow> piece \<Rightarrow> piece \<times> piece" where
  "standardPositionB1 nrm i q = (case (i, q) of ((i0, i1, i2), (q0, q1, q2, q3)) \<Rightarrow>
     ((q2, nrm ! (q1 - i1), i0, nrm ! (q1 - q3)), (q0, q3, nrm ! (q0 - i0), i1)))"

definition standardPositionB2 :: "nat list \<Rightarrow> divpoint \<Rightarrow> piece \<Rightarrow> piece \<times> piece" where
  "standardPositionB2 nrm i q = (case (i, q) of ((i0, i1, i2), (q0, q1, q2, q3)) \<Rightarrow>
     ((q2, nrm ! (q1 - q3), nrm ! (q2 - i0), nrm ! (q1 - i1)), (q0, i1, i0, q3)))"

definition standardPositionB3 :: "nat list \<Rightarrow> divpoint \<Rightarrow> piece \<Rightarrow> piece \<times> piece" where
  "standardPositionB3 nrm i q = (case (i, q) of ((i0, i1, i2), (q0, q1, q2, q3)) \<Rightarrow>
     ((q0, q1, i0, i1), (nrm ! (q0 - i0), nrm ! (q1 - i1), nrm ! (q2 - i0), nrm ! (q3 - i1))))"

definition standardPositionB4 :: "nat list \<Rightarrow> divpoint \<Rightarrow> piece \<Rightarrow> piece \<times> piece" where
  "standardPositionB4 nrm i q = (case (i, q) of ((i0, i1, i2), (q0, q1, q2, q3)) \<Rightarrow>
     ((i0, q1, q2, i1), (nrm ! (q0 - q2), q3, nrm ! (q0 - i0), nrm ! (q3 - i1))))"

definition standardPositionB5 :: "nat list \<Rightarrow> divpoint \<Rightarrow> piece \<Rightarrow> piece \<times> piece" where
  "standardPositionB5 nrm i q = (case (i, q) of ((i0, i1, i2), (q0, q1, q2, q3)) \<Rightarrow>
     ((q2, q1, i0, nrm ! (q1 - i1)), (nrm ! (q0 - i0), q3, nrm ! (q0 - q2), i1)))"

definition standardPositionB6 :: "nat list \<Rightarrow> divpoint \<Rightarrow> piece \<Rightarrow> piece \<times> piece" where
  "standardPositionB6 nrm i q = (case (i, q) of ((i0, i1, i2), (q0, q1, q2, q3)) \<Rightarrow>
     ((i2, q1, i0, nrm ! (q1 - i1)), (nrm ! (q0 - i0), q1, nrm ! (q0 - i2), i1)))"

definition standardPositionB7 :: "nat list \<Rightarrow> divpoint \<Rightarrow> piece \<Rightarrow> piece \<times> piece" where
  "standardPositionB7 nrm i q = (case (i, q) of ((i0, i1, i2), (q0, q1, q2, q3)) \<Rightarrow>
     ((q0, nrm ! (q1 - i1), i0, nrm ! (q1 - i2)), (q0, i2, nrm ! (q0 - i0), i1)))"

definition standardPositionB8 :: "nat list \<Rightarrow> divpoint \<Rightarrow> piece \<Rightarrow> piece \<times> piece" where
  "standardPositionB8 nrm i q = (case (i, q) of ((i0, i1, i2), (q0, q1, q2, q3)) \<Rightarrow>
     ((q2, q1, i0, nrm ! (q1 - i1)), (nrm ! (q0 - i0), i1, nrm ! (q2 - i0), q3)))"

definition standardPositionB9 :: "nat list \<Rightarrow> divpoint \<Rightarrow> piece \<Rightarrow> piece \<times> piece" where
  "standardPositionB9 nrm i q = (case (i, q) of ((i0, i1, i2), (q0, q1, q2, q3)) \<Rightarrow>
     ((i0, nrm ! (q1 - i1), q2, nrm ! (q3 - i1)), (q0, q3, nrm ! (q0 - i0), i1)))"

section \<open>The L-solver (main.cpp)\<close>

definition HOMOGENEOUS :: int32 where "HOMOGENEOUS = 0"
definition B1 :: int32 where "B1 = 1"
definition B2 :: int32 where "B2 = 2"
definition B3 :: int32 where "B3 = 3"
definition B4 :: int32 where "B4 = 4"
definition B5 :: int32 where "B5 = 5"
definition B6 :: int32 where "B6 = 6"
definition B7 :: int32 where "B7 = 7"
definition B8 :: int32 where "B8 = 8"
definition B9 :: int32 where "B9 = 9"

text \<open>The globals of main.cpp.  \<open>bdg\<close> holds the globals shared with bd.cpp.  With
  \<open>memory_type = 4\<close> the records are in the arrays \<open>solution\<close> and \<open>divisionPoint\<close>; otherwise
  in the arrays of maps \<open>solutionMap\<close> and \<open>divisionPointMap\<close>.\<close>

record lstate =
  bdg :: globals
  box_l :: nat
  box_w :: nat
  memory_type :: nat
  solution :: "int32 list"
  divisionPoint :: "int32 list"
  solutionMap :: "(nat \<rightharpoonup> int32) list"
  divisionPointMap :: "(nat \<rightharpoonup> int32) list"
  indexRasterX :: "nat list"
  indexRasterY :: "nat list"
  numRasterX :: nat
  numRasterY :: nat

text \<open>One iteration of \<open>for (i = 0; i <= L; i++)\<close> in \<open>makeIndices\<close>; the state is
  \<open>(j, numRaster, indexRaster[0 .. i - 1])\<close>.\<close>

definition indexStep :: "nat list \<Rightarrow> nat \<Rightarrow> nat \<times> nat \<times> nat list \<Rightarrow> nat \<times> nat \<times> nat list" where
  "indexStep raster i st = (case st of (j, num, ix) \<Rightarrow>
     if raster ! j = i then (j + 1, num + 1, ix @ [num]) else (j, num, ix @ [ix ! (i - 1)]))"

text \<open>The loop and the final \<open>indexRaster[L + 1] = indexRaster[L] + 1\<close>.\<close>

definition indexRaster :: "nat list \<Rightarrow> nat \<Rightarrow> nat list \<times> nat" where
  "indexRaster raster L =
     (case fold (indexStep raster) [0..<Suc L] (0, 0, []) of
        (j, num, ix) \<Rightarrow> (ix @ [ix ! L + 1], num))"

text \<open>The array \<open>raster\<close> of \<open>makeIndices\<close>: the raster points of \<open>(L, W)\<close> in both directions,
  merged, with the sentinel \<open>L + 1\<close>.\<close>

definition indexedPoints :: "globals \<Rightarrow> nat \<Rightarrow> nat \<Rightarrow> nat list" where
  "indexedPoints g L W =
     (let (X, Y) = constructRasterPoints (normalize g) L W (normalSetX g)
      in mergedPoints L W X Y)"

text \<open>\<open>makeIndices\<close> followed by \<open>allocateMemory\<close>.  Which of the four allocations succeeds
  depends on the machine; it is the parameter \<open>t\<close>.  Cells of \<open>divisionPoint\<close> that were
  never written hold 0 here.\<close>

definition makeIndices :: "globals \<Rightarrow> nat \<Rightarrow> nat \<Rightarrow> nat \<Rightarrow> nat \<Rightarrow> nat \<Rightarrow> lstate" where
  "makeIndices g l w t L W =
     (let raster = indexedPoints g L W;
          (iX, nX) = indexRaster raster L;
          (iY, nY) = indexRaster raster W;
          nL = nX ^ ((t + 1) div 2) * nY ^ (t div 2)
      in \<lparr> bdg = g, box_l = l, box_w = w, memory_type = t,
           solution = (if t = 4 then replicate nL (- 1) else []),
           divisionPoint = (if t = 4 then replicate nL 0 else []),
           solutionMap = (if t = 4 then [] else replicate nL Map.empty),
           divisionPointMap = (if t = 4 then [] else replicate nL Map.empty),
           indexRasterX = iX, indexRasterY = iY, numRasterX = nX, numRasterY = nY \<rparr>)"

definition getKey :: "lstate \<Rightarrow> piece \<Rightarrow> nat" where
  "getKey s q = (case q of (q0, q1, q2, q3) \<Rightarrow>
     if memory_type s = 4 then 0
     else if memory_type s = 3 then q3
     else if memory_type s = 2 then indexRasterX s ! q2 * numRasterY s + indexRasterY s ! q3
     else if memory_type s = 1 then
       (indexRasterY s ! q1 * numRasterX s + indexRasterX s ! q2) * numRasterY s
         + indexRasterY s ! q3
     else 0)"

definition LIndex :: "lstate \<Rightarrow> piece \<Rightarrow> nat" where
  "LIndex s q = (case q of (q0, q1, q2, q3) \<Rightarrow>
     if memory_type s = 4 then
       ((indexRasterX s ! q0 * numRasterY s + indexRasterY s ! q1) * numRasterX s
          + indexRasterX s ! q2) * numRasterY s + indexRasterY s ! q3
     else if memory_type s = 3 then
       (indexRasterX s ! q0 * numRasterY s + indexRasterY s ! q1) * numRasterX s
          + indexRasterX s ! q2
     else if memory_type s = 2 then indexRasterX s ! q0 * numRasterY s + indexRasterY s ! q1
     else if memory_type s = 1 then indexRasterX s ! q0
     else 0)"

definition R_UpperBound :: "globals \<Rightarrow> nat \<Rightarrow> nat \<Rightarrow> int" where
  "R_UpperBound g x y =
     upperBound g ! idx (indexX g) (normalize g ! x) ! idx (indexY g) (normalize g ! y)"

definition L_UpperBound :: "lstate \<Rightarrow> piece \<Rightarrow> int" where
  "L_UpperBound s q = (case q of (q0, q1, q2, q3) \<Rightarrow>
     cdiv (int q0 * int q1 - (int q0 - int q2) * (int q1 - int q3)) (int (box_l s * box_w s)))"

text \<open>\<open>getSolution (L, q, &key)\<close>: the stored word, tag included.\<close>

definition getSolutionWord :: "lstate \<Rightarrow> nat \<Rightarrow> nat \<Rightarrow> int32" where
  "getSolutionWord s L key =
     (if memory_type s = 4 then solution s ! L else the ((solutionMap s ! L) key))"

definition storeSolution :: "lstate \<Rightarrow> nat \<Rightarrow> nat \<Rightarrow> int32 \<Rightarrow> lstate" where
  "storeSolution s L key LSolution =
     (if memory_type s = 4 then s\<lparr>solution := (solution s)[L := LSolution]\<rparr>
      else s\<lparr>solutionMap := (solutionMap s)[L := (solutionMap s ! L)(key \<mapsto> LSolution)]\<rparr>)"

definition storeDivisionPoint :: "lstate \<Rightarrow> nat \<Rightarrow> nat \<Rightarrow> int32 \<Rightarrow> lstate" where
  "storeDivisionPoint s L key point =
     (if memory_type s = 4 then s\<lparr>divisionPoint := (divisionPoint s)[L := point]\<rparr>
      else s\<lparr>divisionPointMap := (divisionPointMap s)[L := (divisionPointMap s ! L)(key \<mapsto> point)]\<rparr>)"

text \<open>\<open>divide\<close>: subdivide and normalize both pieces.\<close>

definition divide :: "lstate \<Rightarrow> (nat list \<Rightarrow> divpoint \<Rightarrow> piece \<Rightarrow> piece \<times> piece) \<Rightarrow> divpoint \<Rightarrow> piece \<Rightarrow>
    piece option \<times> piece option" where
  "divide s standardPosition i q =
     (case standardPosition (normalize (bdg s)) i q of
        (q1, q2) \<Rightarrow> (normalizePiece (box_l s) (box_w s) q1, normalizePiece (box_l s) (box_w s) q2))"

type_synonym lfun = "nat \<Rightarrow> piece \<Rightarrow> lstate \<Rightarrow> (int32 \<times> lstate) option"

text \<open>The body shared by the loops of \<open>divideL\<close>, \<open>divideB6\<close> and \<open>divideB7\<close>, run over the
  division points in loop order.  \<open>sv\<close> is the recursive call of \<open>solve\<close> (\<open>None\<close>: it did not
  return), \<open>dp\<close> packs the division point.\<close>

fun divideLoop :: "lfun \<Rightarrow> nat \<Rightarrow> nat \<Rightarrow> int \<Rightarrow> int32 \<Rightarrow>
    (nat list \<Rightarrow> divpoint \<Rightarrow> piece \<Rightarrow> piece \<times> piece) \<Rightarrow> piece \<Rightarrow> (divpoint \<Rightarrow> int32) \<Rightarrow>
    divpoint list \<Rightarrow> int32 \<Rightarrow> lstate \<Rightarrow> (int32 \<times> lstate) option" where
  "divideLoop sv L key ub B sp q dp [] LSolution s = Some (LSolution, s)"
| "divideLoop sv L key ub B sp q dp (i_k # iks) LSolution s =
     (case divide s sp i_k q of
        (Some q1, Some q2) \<Rightarrow>
          if L_UpperBound s q1 + L_UpperBound s q2 > sint (LSolution AND nRet) then
            (case sv (LIndex s q1) q1 s of
               None \<Rightarrow> None
             | Some (L1Solution, s1) \<Rightarrow>
                 (case sv (LIndex s q2) q2 s1 of
                    None \<Rightarrow> None
                  | Some (L2Solution, s2) \<Rightarrow>
                      if sint ((L1Solution AND nRet) + (L2Solution AND nRet)) > sint (LSolution AND nRet)
                      then
                        (let LSolution' = ((L1Solution AND nRet) + (L2Solution AND nRet))
                                            OR push_bit descSol B;
                             s3 = storeDivisionPoint (storeSolution s2 L key LSolution') L key (dp i_k)
                         in if sint (LSolution' AND nRet) = ub then Some (LSolution', s3)
                            else divideLoop sv L key ub B sp q dp iks LSolution' s3)
                      else divideLoop sv L key ub B sp q dp iks LSolution s2))
          else divideLoop sv L key ub B sp q dp iks LSolution s
      | _ \<Rightarrow> divideLoop sv L key ub B sp q dp iks LSolution s)"

definition divideL :: "lfun \<Rightarrow> nat \<Rightarrow> piece \<Rightarrow> nat \<times> nat \<times> nat \<times> nat \<Rightarrow> int32 \<Rightarrow>
    (nat list \<Rightarrow> divpoint \<Rightarrow> piece \<Rightarrow> piece \<times> piece) \<Rightarrow> nat list \<Rightarrow> nat \<Rightarrow> nat list \<Rightarrow> nat \<Rightarrow>
    lstate \<Rightarrow> (int32 \<times> lstate) option" where
  "divideL sv L q constraints B standardPosition X startX Y startY s =
     (case constraints of (c0, c1, c2, c3) \<Rightarrow>
        let key = getKey s q
        in divideLoop sv L key (L_UpperBound s q) B standardPosition q
             (\<lambda>(i0, i1, i2). word_of_nat i0 OR push_bit descPtoDiv2 (word_of_nat i1))
             (concat (map (\<lambda>x. map (\<lambda>y. (x, y, 0)) (takeWhile (\<lambda>y. y \<le> c3) (drop startY Y)))
                        (takeWhile (\<lambda>x. x \<le> c1) (drop startX X))))
             (getSolutionWord s L key) s)"

definition packPoint3 :: "divpoint \<Rightarrow> int32" where
  "packPoint3 i = (case i of (i0, i1, i2) \<Rightarrow>
     packDivisionPoint (word_of_nat i0) (word_of_nat i1) (word_of_nat i2))"

definition divideB6 :: "lfun \<Rightarrow> nat \<Rightarrow> piece \<Rightarrow> nat list \<Rightarrow> nat list \<Rightarrow> lstate \<Rightarrow>
    (int32 \<times> lstate) option" where
  "divideB6 sv L q X Y s = (case q of (q0, q1, q2, q3) \<Rightarrow>
     let key = getKey s q
     in divideLoop sv L key (R_UpperBound (bdg s) q0 q1) B6 standardPositionB6 q packPoint3
          (concat (map (\<lambda>i. concat (map (\<lambda>j.
              if X ! i = 0 \<and> X ! j = 0 then []
              else map (\<lambda>k. (X ! i, Y ! k, X ! j)) [0..<length Y]) [i..<length X])) [0..<length X]))
          (getSolutionWord s L key) s)"

definition divideB7 :: "lfun \<Rightarrow> nat \<Rightarrow> piece \<Rightarrow> nat list \<Rightarrow> nat list \<Rightarrow> lstate \<Rightarrow>
    (int32 \<times> lstate) option" where
  "divideB7 sv L q X Y s = (case q of (q0, q1, q2, q3) \<Rightarrow>
     let key = getKey s q
     in divideLoop sv L key (R_UpperBound (bdg s) q0 q1) B7 standardPositionB7 q packPoint3
          (concat (map (\<lambda>j. concat (map (\<lambda>k.
              if Y ! j = 0 \<and> Y ! k = 0 then []
              else map (\<lambda>i. (X ! i, Y ! j, Y ! k)) [0..<length X]) [j..<length Y])) [0..<length Y]))
          (getSolutionWord s L key) s)"

text \<open>\<open>r\<close> is the result of one \<open>divideL\<close>; \<open>solve\<close> returns it when it reaches the upper bound
  and goes on to the next subdivision otherwise.\<close>

definition orElse :: "(int32 \<times> lstate) option \<Rightarrow> int \<Rightarrow> (lstate \<Rightarrow> (int32 \<times> lstate) option) \<Rightarrow>
    (int32 \<times> lstate) option" where
  "orElse r ub next = (case r of
     None \<Rightarrow> None
   | Some (LSolution, s) \<Rightarrow> if sint (LSolution AND nRet) = ub then Some (LSolution, s) else next s)"

text \<open>The record that \<open>solve\<close> stores for a non-degenerate piece before it tries any
  subdivision: the solution word and the division point.\<close>

definition seedL :: "globals \<Rightarrow> piece \<Rightarrow> int32 \<times> int32" where
  "seedL g q = (case q of (q0, q1, q2, q3) \<Rightarrow>
     case L_LowerBound g q of (lb, horizontalCut) \<Rightarrow>
       (word_of_int lb OR push_bit descSol B1,
        if horizontalCut then 0 OR push_bit descPtoDiv2 (word_of_nat q3)
        else word_of_nat q2 OR push_bit descPtoDiv2 0))"

definition setLowerBound :: "lstate \<Rightarrow> nat \<Rightarrow> nat \<Rightarrow> int \<Rightarrow> lstate" where
  "setLowerBound s q0 q1 v =
     s\<lparr>bdg := writeLowerBound (bdg s) (idx (indexX (bdg s)) q0) (idx (indexY (bdg s)) q1) v\<rparr>"

definition solve_body :: "lfun \<Rightarrow> lfun" where
  "solve_body sv L q s = (case q of (q0, q1, q2, q3) \<Rightarrow>
     let key = getKey s q;
         known = (if memory_type s = 4 then (if solution s ! L \<noteq> - 1 then Some (solution s ! L) else None)
                  else (solutionMap s ! L) key)
     in case known of
          Some v \<Rightarrow> Some (v, s)
        | None \<Rightarrow>
            if q0 \<noteq> q2 then
              (let ub = L_UpperBound s q;
                   (LSolution, point) = seedL (bdg s) q;
                   s1 = storeSolution (storeDivisionPoint s L key point) L key LSolution
               in if sint (LSolution AND nRet) \<noteq> ub then
                    (let (X, Y) = constructRasterPoints (normalize (bdg s1)) q0 q1 (normalSetX (bdg s1));
                         startX = length (takeWhile (\<lambda>p. p < q2) X);
                         startY = length (takeWhile (\<lambda>p. p < q3) Y);
                         c1 = (0, q2, 0, q3);
                         c2 = (0, q2, q3, last Y);
                         c3 = (q2, last X, 0, q3)
                     in orElse (divideL sv L q c1 B1 standardPositionB1 X 0 Y 0 s1) ub (\<lambda>s.
                        orElse (divideL sv L q c1 B3 standardPositionB3 X 0 Y 0 s) ub (\<lambda>s.
                        orElse (divideL sv L q c1 B5 standardPositionB5 X 0 Y 0 s) ub (\<lambda>s.
                        orElse (divideL sv L q c2 B2 standardPositionB2 X 0 Y startY s) ub (\<lambda>s.
                        orElse (divideL sv L q c2 B8 standardPositionB8 X 0 Y startY s) ub (\<lambda>s.
                        orElse (divideL sv L q c3 B4 standardPositionB4 X startX Y 0 s) ub (\<lambda>s.
                        divideL sv L q c3 B9 standardPositionB9 X startX Y 0 s)))))))
                  else Some (LSolution, s1))
            else
              (let LSolution = word_of_int (R_LowerBound (bdg s) q0 q1) OR push_bit descSol HOMOGENEOUS;
                   ub = R_UpperBound (bdg s) q0 q1;
                   s1 = storeSolution s L key LSolution
               in if sint (LSolution AND nRet) \<noteq> ub then
                    (let (X, Y) = constructRasterPoints (normalize (bdg s1)) q0 q1 (normalSetX (bdg s1))
                     in case divideB6 sv L q X Y s1 of
                          None \<Rightarrow> None
                        | Some (LSolution6, s2) \<Rightarrow>
                            if sint (LSolution6 AND nRet) = ub
                            then Some (LSolution6, setLowerBound s2 q0 q1 (sint (LSolution6 AND nRet)))
                            else (case divideB7 sv L q X Y s2 of
                                    None \<Rightarrow> None
                                  | Some (LSolution7, s3) \<Rightarrow>
                                      Some (LSolution7, setLowerBound s3 q0 q1 (sint (LSolution7 AND nRet)))))
                  else Some (LSolution, s1)))"

text \<open>\<open>solve\<close> of main.cpp with its nesting depth made explicit.\<close>

fun L_solve :: "nat \<Rightarrow> lfun" where
  "L_solve 0 = (\<lambda>L q s. None)"
| "L_solve (Suc k) = solve_body (L_solve k)"

text \<open>Modelled from the spec: the step of \<open>pack\<close> that runs the L-solver is missing from
  the source (\<open>pack\<close> goes from \<open>solve_BD\<close> straight to \<open>draw\<close>).  The spec's control flow runs
  the L-solver after BD, "seeded with the whole pallet treated as a degenerate L":
  \<open>makeIndices\<close>, \<open>allocateMemory\<close>, then \<open>solve\<close> on \<open>q = (L_n, W_n, L_n, W_n)\<close>; the count is
  \<open>solution & nRet\<close>.\<close>

definition L_solver_count :: "nat \<Rightarrow> nat \<Rightarrow> nat \<Rightarrow> nat \<Rightarrow> nat \<Rightarrow> nat \<Rightarrow> int option" where
  "L_solver_count k t L0 W0 l w =
     (let (L, W) = (if W0 > L0 then (W0, L0) else (L0, W0))
      in case solve_BD L W l w 0 of
           None \<Rightarrow> None
         | Some (BD_solution, g) \<Rightarrow>
             (let L_n = normalize g ! L; W_n = normalize g ! W;
                  s = makeIndices g l w t L_n W_n;
                  q = (L_n, W_n, L_n, W_n)
              in case L_solve k (LIndex s q) q s of
                   None \<Rightarrow> None
                 | Some (L_solution, s') \<Rightarrow> Some (sint (L_solution AND nRet))))"



section \<open>Notions used in the proofs about the reconstruction\<close>

text \<open>A conic combination of \<open>l\<close> and \<open>w\<close>: what \<open>constructConicCombinations\<close> collects.\<close>

definition conic :: "nat \<Rightarrow> nat \<Rightarrow> nat \<Rightarrow> bool" where
  "conic l w x \<longleftrightarrow> (\<exists>a b. x = a * l + b * w)"

text \<open>What the proofs use of the set \<open>X0\<close> of conic combinations and of the table
  \<open>normalize\<close>: \<open>normalize[x]\<close> is the largest point up to \<open>x\<close>, and the set is closed under the
  sums that stay within \<open>L\<close>.\<close>

definition conicTable :: "nat \<Rightarrow> nat list \<Rightarrow> nat list \<Rightarrow> bool" where
  "conicTable L X0 nrm \<longleftrightarrow>
     sorted_wrt (<) X0 \<and> 0 \<in> set X0 \<and> L \<in> set X0 \<and> (\<forall>x\<in>set X0. x \<le> L) \<and>
     (\<forall>x\<le>L. normInv X0 x (nrm ! x)) \<and>
     (\<forall>a\<in>set X0. \<forall>b\<in>set X0. a + b \<le> L \<longrightarrow> a + b \<in> set X0)"

text \<open>The raster points of a length \<open>V\<close>: the values \<open>normalize[V - c]\<close> that
  \<open>constructRasterPoints\<close> inserts.\<close>

definition rasterSet :: "nat list \<Rightarrow> nat list \<Rightarrow> nat \<Rightarrow> nat set" where
  "rasterSet nrm X0 V = (\<lambda>c. nrm ! (V - c)) ` {c \<in> set X0. c \<le> V}"

text \<open>The sum \<open>lowerBound[indexX[L_[i]]][indexY[W_[i]]]\<close> over the partitions, as \<open>solve\<close> reads
  it in the branch of the maximum depth.\<close>

definition blockCount :: "globals \<Rightarrow> (nat \<times> nat) list \<Rightarrow> int" where
  "blockCount g blocks =
     sum_list (map (\<lambda>b. lowerBound g ! idx (indexX g) (fst (normalizeBlock g b))
                                     ! idx (indexY g) (snd (normalizeBlock g b))) blocks)"

text \<open>The cuts that \<open>BD\<close> tries on \<open>(L, W)\<close>, in the order of its three loop nests.\<close>

definition cutCandidates :: "globals \<Rightarrow> nat \<Rightarrow> nat \<Rightarrow>
    ((nat \<times> nat) list \<times> nat \<times> nat \<times> nat \<times> nat) list" where
  "cutCandidates g L W =
     (let (rasterX, rasterY) = constructRasterPoints (normalize g) L W (normalSetX g)
      in nonGuillotineCuts L W rasterX rasterY @ verticalCuts L W rasterX
           @ horizontalCuts L W rasterY)"

text \<open>The state after \<open>BD (L, W)\<close> at the maximum depth, started from \<open>g0\<close>: the bounds are
  those of \<open>g0\<close>; either no cut improved on the homogeneous packing, or the cell of
  \<open>(L, W)\<close> holds the last cut that did, and \<open>z\<close> is the sum over its partitions.\<close>

definition cutState :: "globals \<Rightarrow> nat \<Rightarrow> nat \<Rightarrow> int \<Rightarrow> globals \<Rightarrow> bool" where
  "cutState g0 L W z g \<longleftrightarrow>
     sameBounds g0 g \<and>
     ((cutPoints g = cutPoints g0 \<and> z = lowerBound g0 ! idx (indexX g0) L ! idx (indexY g0) W) \<or>
      (\<exists>(blocks, x1, x2, y1, y2) \<in> set (cutCandidates g0 L W).
         cutPoints g = set2 (cutPoints g0) (idx (indexX g0) L) (idx (indexY g0) W)
                         \<lparr>cx1 = x1, cx2 = x2, cy1 = y1, cy2 = y2, homogeneous = 0\<rparr> \<and>
         z = blockCount g0 blocks))"

text \<open>The partitions \<open>blocks\<close> that \<open>solve\<close> sums for a cut and the subproblems \<open>subs\<close> that
  \<open>getSubproblems\<close> rebuilds from the stored cut point: all sides are raster points, a
  non-empty subproblem is smaller than \<open>(L, W)\<close>, and the homogeneous counts add up to the
  same sum.\<close>

definition partitionsAgree :: "nat list \<Rightarrow> nat \<Rightarrow> nat \<Rightarrow> nat set \<Rightarrow> nat set \<Rightarrow> nat \<Rightarrow> nat \<Rightarrow>
    (nat \<times> nat) list \<Rightarrow> (nat \<times> nat) list \<Rightarrow> bool" where
  "partitionsAgree nrm l w RL RW L W blocks subs \<longleftrightarrow>
     (\<forall>b\<in>set blocks. nrm ! fst b \<in> RL \<and> nrm ! snd b \<in> RW) \<and>
     (\<forall>(Li, Wi)\<in>set subs. Li \<noteq> 0 \<and> Wi \<noteq> 0 \<longrightarrow> Li \<in> RL \<and> Wi \<in> RW \<and> (Li < L \<or> Wi < W)) \<and>
     (\<Sum>(Li, Wi)\<leftarrow>subs. lowerBound_macro Li Wi l w)
        = (\<Sum>b\<leftarrow>blocks. lowerBound_macro (nrm ! fst b) (nrm ! snd b) l w)"


section \<open>Properties of the codec\<close>

lemma upper_bits_clear: "uint (x::int32) < 2 ^ n \<Longrightarrow> bit x m \<Longrightarrow> m < n"
proof -
  assume small: "uint x < 2 ^ n" and set: "bit x m"
  have "x AND mask n = x" using small by (simp add: mask_eq_iff)
  then have "bit (x AND mask n) m" using set by simp
  then show ?thesis by (simp add: bit_simps)
qed

lemma codec_masks:
  "nRet = mask 27" "solucao = push_bit 27 (mask 4)" "ptoDiv1 = mask 11"
  "ptoDiv2 = push_bit 11 (mask 11)" "ptoDiv3 = push_bit 22 (mask 10)"
  by (simp_all add: nRet_def solucao_def ptoDiv1_def ptoDiv2_def ptoDiv3_def
        mask_eq_exp_minus_1)

lemma solution_word_roundtrip:
  assumes "uint c < 2 ^ 27" and "uint t < 2 ^ 4"
  shows "getSolution (packSolution c t) = c" and "divisionType (packSolution c t) = t"
proof -
  have c: "\<And>m. bit c m \<Longrightarrow> m < 27" using upper_bits_clear[OF assms(1)] .
  have t: "\<And>m. bit t m \<Longrightarrow> m < 4" using upper_bits_clear[OF assms(2)] .
  show "getSolution (packSolution c t) = c"
    unfolding getSolution_def packSolution_def descSol_def codec_masks
    by (rule bit_word_eqI) (auto simp add: bit_simps dest: c t)
  show "divisionType (packSolution c t) = t"
    unfolding divisionType_def packSolution_def descSol_def codec_masks
    by (rule bit_word_eqI) (auto simp add: bit_simps dest: c t)
qed

lemma division_word_roundtrip:
  assumes "uint d1 < 2 ^ 11" and "uint d2 < 2 ^ 11" and "uint d3 < 2 ^ 10"
  shows "div0 (packDivisionPoint d1 d2 d3) = d1"
    and "div1 (packDivisionPoint d1 d2 d3) = d2"
    and "div2 (packDivisionPoint d1 d2 d3) = d3"
proof -
  have a: "\<And>m. bit d1 m \<Longrightarrow> m < 11" using upper_bits_clear[OF assms(1)] .
  have b: "\<And>m. bit d2 m \<Longrightarrow> m < 11" using upper_bits_clear[OF assms(2)] .
  have c: "\<And>m. bit d3 m \<Longrightarrow> m < 10" using upper_bits_clear[OF assms(3)] .
  show "div0 (packDivisionPoint d1 d2 d3) = d1"
    unfolding div0_def packDivisionPoint_def descPtoDiv2_def descPtoDiv3_def codec_masks
    by (rule bit_word_eqI) (auto simp add: bit_simps dest: a b c)
  show "div1 (packDivisionPoint d1 d2 d3) = d2"
    unfolding div1_def packDivisionPoint_def descPtoDiv2_def descPtoDiv3_def codec_masks
    by (rule bit_word_eqI) (auto simp add: bit_simps dest: a b c)
  show "div2 (packDivisionPoint d1 d2 d3) = d3"
    unfolding div2_def packDivisionPoint_def descPtoDiv2_def descPtoDiv3_def codec_masks
    by (rule bit_word_eqI) (auto simp add: bit_simps dest: a b c)
qed

text \<open>
  C8 (as amended).  For every count \<open>c \<le> 2^27 - 1\<close>, tag \<open>t \<le> 9\<close>, first and second
  division coordinates \<open>d1, d2 \<le> 2047\<close> and third division coordinate \<open>d3 \<le> 1023\<close>,
  packing the solution word as \<open>c | t << 27\<close> and the division word as
  \<open>d1 | d2 << 11 | d3 << 22\<close> and reading them back through \<open>nRet\<close>, \<open>solucao\<close>,
  \<open>ptoDiv1\<close>, \<open>ptoDiv2\<close> and \<open>ptoDiv3\<close> recovers \<open>c\<close>, \<open>t\<close>, \<open>d1\<close>, \<open>d2\<close> and \<open>d3\<close>.
  The third coordinate has only the ten bits 22 to 31.
\<close>

theorem C8_codec_roundtrip:
  assumes "uint c \<le> 2 ^ 27 - 1" and "uint t \<le> 9"
    and "uint d1 \<le> 2047" and "uint d2 \<le> 2047" and "uint d3 \<le> 1023"
  shows "getSolution (packSolution c t) = c \<and> divisionType (packSolution c t) = t \<and>
         div0 (packDivisionPoint d1 d2 d3) = d1 \<and>
         div1 (packDivisionPoint d1 d2 d3) = d2 \<and>
         div2 (packDivisionPoint d1 d2 d3) = d3"
proof -
  have c: "uint c < 2 ^ 27" and t: "uint t < 2 ^ 4" using assms(1,2) by simp_all
  have d: "uint d1 < 2 ^ 11" "uint d2 < 2 ^ 11" "uint d3 < 2 ^ 10"
    using assms(3,4,5) by simp_all
  show ?thesis
    using solution_word_roundtrip[OF c t] division_word_roundtrip[OF d] by simp
qed

theorem C8_codec_roundtrip_witness:
  "getSolution (packSolution 41 6) = 41 \<and> divisionType (packSolution 41 6) = 6 \<and>
   div0 (packDivisionPoint 12 2047 1023) = 12 \<and>
   div1 (packDivisionPoint 12 2047 1023) = 2047 \<and>
   div2 (packDivisionPoint 12 2047 1023) = 1023"
  using C8_codec_roundtrip[of 41 6 12 2047 1023] by simp

text \<open>
  C8 as stated lets the third coordinate use eleven bits.  At \<open>d3 = 1024\<close>, which is
  \<open>\<le> 2047\<close>, the shifted value leaves the 32-bit word and the reader returns 0.
\<close>

theorem C8_counterexample:
  "uint (1024 :: int32) \<le> 2047 \<and> div2 (packDivisionPoint 0 0 1024) \<noteq> 1024"
  by (simp add: div2_def packDivisionPoint_def descPtoDiv2_def descPtoDiv3_def ptoDiv3_def)


section \<open>Properties of the integer sets\<close>

lemma strict_sorted_le_last: "sorted_wrt (<) xs \<Longrightarrow> x \<in> set xs \<Longrightarrow> x \<le> last (xs::nat list)"
  by (induction xs) (auto simp: less_imp_le)

lemma collect_inv:
  "fold (collectStep c) [1..<Suc n] ([0], (replicate (L + 2) 0)[0 := 1]) = (X, inX) \<Longrightarrow> n \<le> L \<Longrightarrow>
   sorted_wrt (<) X \<and> X \<noteq> [] \<and> hd X = 0 \<and> (\<forall>x\<in>set X. x \<le> n) \<and> length inX = L + 2 \<and> (\<forall>k. n < k \<longrightarrow> k < L + 2 \<longrightarrow> inX ! k = 0)"
proof (induction n arbitrary: X inX)
  case 0
  then have "X = [0]" "inX = (replicate (L + 2) 0)[0 := 1]" by simp_all
  then show ?case by (simp add: nth_list_update del: replicate_Suc replicate.simps)
next
  case (Suc n)
  obtain X' inX' where p: "fold (collectStep c) [1..<Suc n] ([0], (replicate (L + 2) 0)[0 := 1]) = (X', inX')"
    by (cases "fold (collectStep c) [1..<Suc n] ([0], (replicate (L + 2) 0)[0 := 1])") auto
  have ih: "sorted_wrt (<) X' \<and> X' \<noteq> [] \<and> hd X' = 0 \<and> (\<forall>x\<in>set X'. x \<le> n) \<and> length inX' = L + 2 \<and> (\<forall>k. n < k \<longrightarrow> k < L + 2 \<longrightarrow> inX' ! k = 0)"
    using Suc.IH[OF p] Suc.prems by simp
  have st: "collectStep c (Suc n) (X', inX') = (X, inX)"
    using Suc.prems(1) p by simp
  show ?case
  proof (cases "c ! Suc n = Suc n \<and> inX' ! Suc n = 0")
    case True
    then have "X = X' @ [Suc n]" "inX = inX'[Suc n := 1]" using st by (auto simp: collectStep_def)
    then show ?thesis using ih by (auto simp: sorted_wrt_append nth_list_update)
  next
    case False
    then have "X = X'" "inX = inX'" using st by (auto simp: collectStep_def)
    then show ?thesis using ih by auto
  qed
qed

lemma conic_sorted:
  "sorted_wrt (<) (constructConicCombinations L l w) \<and> constructConicCombinations L l w \<noteq> [] \<and> 
   hd (constructConicCombinations L l w) = 0 \<and> (\<forall>x\<in>set (constructConicCombinations L l w). x \<le> L)"
proof -
  define c2 where "c2 = fold (conicStep w) [w..<Suc L] (fold (conicStep l) [l..<Suc L] (replicate (L + 2) 0))"
  obtain X inX where p: "fold (collectStep c2) [1..<Suc L] ([0], (replicate (L + 2) 0)[0 := 1]) = (X, inX)"
    by (cases "fold (collectStep c2) [1..<Suc L] ([0], (replicate (L + 2) 0)[0 := 1])") auto
  have inv: "sorted_wrt (<) X \<and> X \<noteq> [] \<and> hd X = 0 \<and> (\<forall>x\<in>set X. x \<le> L)"
    using collect_inv[OF p] by simp
  have eq: "constructConicCombinations L l w = (if last X \<noteq> L then X @ [L] else X)"
    using p by (simp add: constructConicCombinations_def c2_def Let_def)
  have "last X \<in> set X" using inv by simp
  then have "last X \<noteq> L \<Longrightarrow> last X < L" using inv by (simp add: le_neq_implies_less)
  then have "last X \<noteq> L \<Longrightarrow> \<forall>x\<in>set X. x < L"
    using inv strict_sorted_le_last[of X] by (meson le_less_trans)
  then show ?thesis using inv eq by (auto simp: sorted_wrt_append)
qed


lemma advance_spec:
  assumes "\<forall>k<i. pts ! k \<le> j" and "i \<le> length pts"
  shows "i \<le> advance pts j i \<and> advance pts j i \<le> length pts \<and>
         (\<forall>k<advance pts j i. pts ! k \<le> j) \<and>
         (advance pts j i < length pts \<longrightarrow> j < pts ! advance pts j i)"
  using assms
proof (induction pts j i rule: advance.induct)
  case (1 pts j i)
  show ?case
  proof (cases "i < length pts \<and> pts ! i \<le> j")
    case True
    have "\<forall>k<Suc i. pts ! k \<le> j" using True "1.prems"(1) by (simp add: less_Suc_eq)
    then show ?thesis using "1.IH"[OF True] True by (subst (1 2 3 4 5) advance.simps) auto
  next
    case False
    then show ?thesis using "1.prems" by (subst (1 2 3 4 5) advance.simps) auto
  qed
qed

lemma advance_value:
  assumes srt: "sorted_wrt (<) pts" and ne: "pts \<noteq> []" and z: "hd pts = 0"
    and inv: "\<forall>k<i. pts ! k \<le> j" and le: "i \<le> length pts"
  shows "normInv pts j (pts ! (advance pts j i - 1))"
proof -
  let ?i = "advance pts j i"
  have sp: "i \<le> ?i" "?i \<le> length pts" "\<forall>k<?i. pts ! k \<le> j"
      "?i < length pts \<longrightarrow> j < pts ! ?i"
    using advance_spec[OF inv le] by auto
  have p0: "pts ! 0 = 0" using ne z by (simp add: hd_conv_nth)
  have pos: "0 < ?i"
  proof (rule ccontr)
    assume "\<not> 0 < ?i"
    then have "?i = 0" by simp
    then show False using sp(4) p0 ne by simp
  qed
  then have lt: "?i - 1 < length pts" "?i - 1 < ?i" using sp(2) by auto
  have mem: "pts ! (?i - 1) \<in> set pts" using lt by simp
  have le': "pts ! (?i - 1) \<le> j" using sp(3) lt by blast
  have "s \<le> pts ! (?i - 1)" if sin: "s \<in> set pts" and sj: "s \<le> j" for s
  proof -
    obtain k where k: "k < length pts" "pts ! k = s" using sin by (auto simp: in_set_conv_nth)
    have "k < ?i"
    proof (rule ccontr)
      assume "\<not> k < ?i"
      then have ge: "?i \<le> k" by simp
      then have il: "?i < length pts" using k by simp
      then have "j < pts ! ?i" using sp(4) by simp
      moreover have "pts ! ?i \<le> pts ! k"
        using srt ge k il by (cases "?i = k") (auto simp: sorted_wrt_iff_nth_less less_imp_le)
      ultimately show False using k sj by simp
    qed
    then have "k \<le> ?i - 1" by simp
    then have "pts ! k \<le> pts ! (?i - 1)"
      using srt lt by (cases "k = ?i - 1") (auto simp: sorted_wrt_iff_nth_less less_imp_le)
    then show ?thesis using k by simp
  qed
  then show ?thesis using mem le' by (simp add: normInv_def)
qed

lemma normalizeLoop_spec:
  assumes srt: "sorted_wrt (<) pts" and ne: "pts \<noteq> []" and z: "hd pts = 0"
  shows "(\<forall>k<i. pts ! k \<le> a) \<Longrightarrow> i \<le> length pts \<Longrightarrow> a \<le> x \<Longrightarrow> x < a + n \<Longrightarrow>
         normInv pts x (normalizeLoop pts [a..<a + n] i ! (x - a))"
proof (induction n arbitrary: a i)
  case 0
  then show ?case by simp
next
  case (Suc n)
  let ?i = "advance pts a i"
  have sp: "?i \<le> length pts" "\<forall>k<?i. pts ! k \<le> a"
    using advance_spec[OF Suc.prems(1,2)] by auto
  have unf: "normalizeLoop pts [a..<a + Suc n] i = pts ! (?i - 1) # normalizeLoop pts [Suc a..<Suc a + n] ?i"
  proof -
    have "[a..<a + Suc n] = a # [Suc a..<Suc a + n]"
      using upt_conv_Cons[of a "a + Suc n"] by simp
    then show ?thesis by (simp only: normalizeLoop.simps Let_def)
  qed
  show ?case
  proof (cases "x = a")
    case True
    then show ?thesis using unf advance_value[OF srt ne z Suc.prems(1,2)] by simp
  next
    case False
    then have xa: "Suc a \<le> x" "x < Suc a + n" using Suc.prems by auto
    have inv': "\<forall>k<?i. pts ! k \<le> Suc a" using sp(2) by (meson le_Suc_eq)
    have "normInv pts x (normalizeLoop pts [Suc a..<Suc a + n] ?i ! (x - Suc a))"
      using Suc.IH[OF inv' sp(1) xa] .
    moreover have "x - a = Suc (x - Suc a)" using xa by simp
    ultimately show ?thesis using unf by simp
  qed
qed

lemma buildNormalize_spec:
  assumes "sorted_wrt (<) pts" and "pts \<noteq> []" and "hd pts = 0" and "x \<le> L"
  shows "normInv pts x (buildNormalize L pts ! x)"
  using normalizeLoop_spec[OF assms(1,2,3), of 0 0 x "Suc L"] assms(4)
  by (simp add: buildNormalize_def)

text \<open>
  C6.  After \<open>constructConicCombinations\<close> has built \<open>X\<close> (which always holds \<open>L\<close>, appended
  when it is no combination) and \<open>initialize\<close> has filled \<open>normalize[0..L]\<close>, every \<open>x\<close> in
  \<open>[0, L]\<close> satisfies: \<open>normalize[x] = x\<close> if \<open>x\<close> is in \<open>X\<close>, and \<open>normalize[x] < x\<close> otherwise.
\<close>

theorem C6_normalize_closure:
  "x \<le> L \<Longrightarrow>
   (x \<in> set (constructConicCombinations L l w) \<longrightarrow>
      buildNormalize L (constructConicCombinations L l w) ! x = x) \<and>
   (x \<notin> set (constructConicCombinations L l w) \<longrightarrow>
      buildNormalize L (constructConicCombinations L l w) ! x < x)"
proof -
  assume xl: "x \<le> L"
  let ?X = "constructConicCombinations L l w"
  have "normInv ?X x (buildNormalize L ?X ! x)"
    using buildNormalize_spec[of ?X x L] conic_sorted[of L l w] xl by simp
  then show ?thesis unfolding normInv_def by (metis le_neq_implies_less order_refl le_antisym)
qed

lemma conic_10_3_4: "constructConicCombinations 10 3 4 = [0, 3, 4, 6, 7, 8, 9, 10]"
  by code_simp

theorem C6_normalize_closure_witness:
  "(7::nat) \<le> 10 \<and> 7 \<in> set (constructConicCombinations 10 3 4) \<and>
   buildNormalize 10 (constructConicCombinations 10 3 4) ! 7 = 7 \<and>
   (5::nat) \<le> 10 \<and> 5 \<notin> set (constructConicCombinations 10 3 4) \<and>
   buildNormalize 10 (constructConicCombinations 10 3 4) ! 5 < 5"
  using C6_normalize_closure[of 7 10 3 4] C6_normalize_closure[of 5 10 3 4]
  by (simp add: conic_10_3_4)

section \<open>The five-block solver at the depth cap\<close>

text \<open>
  \<open>solve_BD\<close> calls \<open>BD (L_n, W_n, l, w, N)\<close>: the depth argument is \<open>N\<close> itself, so \<open>solve\<close>
  always takes the branch of the maximum depth, which reads the bounds of the partitions
  and never calls \<open>BD\<close> again.
\<close>

lemma sameBounds_refl [simp]: "sameBounds g g"
  by (simp add: sameBounds_def)

lemma sameBounds_trans: "sameBounds g g' \<Longrightarrow> sameBounds g' g'' \<Longrightarrow> sameBounds g g''"
  by (simp add: sameBounds_def)

lemma sameBounds_storeCutPoint [simp]: "sameBounds g (storeCutPoint g L W x1 x2 y1 y2)"
  by (simp add: sameBounds_def storeCutPoint_def)

lemma sameBounds_markOptimal [simp]: "sameBounds g (markOptimal g L W)"
  by (simp add: sameBounds_def markOptimal_def)

lemma sameBounds_reachedLimit [simp]: "sameBounds g (g\<lparr>reachedLimit := r\<rparr>)"
  by (simp add: sameBounds_def)

lemma solve_at_cap:
  assumes "\<not> n < depthN g"
  shows "\<exists>solved z g'. solve bd L W n blocks z_lb z_ub cpt g = Some (solved, z, g') \<and>
           z_lb \<le> z \<and> sameBounds g g'"
proof -
  obtain x1 x2 y1 y2 where c: "cpt = (x1, x2, y1, y2)" by (cases cpt) auto
  let ?g1 = "g\<lparr>reachedLimit := set2 (reachedLimit g) (idx (indexX g) L) (idx (indexY g) W) 1\<rparr>"
  have s1: "sameBounds g ?g1" by simp
  have s2: "sameBounds g (storeCutPoint ?g1 L W x1 x2 y1 y2)"
    using sameBounds_trans[OF s1 sameBounds_storeCutPoint] .
  have s3: "sameBounds g (markOptimal (storeCutPoint ?g1 L W x1 x2 y1 y2) L W)"
    using sameBounds_trans[OF s2 sameBounds_markOptimal] .
  show ?thesis
    using assms s1 s2 s3 unfolding solve_def c Let_def
    by (auto simp del: sameBounds_reachedLimit sameBounds_storeCutPoint sameBounds_markOptimal)
qed

lemma BD_loop_at_cap:
  assumes "\<not> n < depthN g"
  shows "\<exists>z g'. BD_loop bd L W n z_ub cs z_lb g = Some (z, g') \<and> z_lb \<le> z \<and> sameBounds g g'"
  using assms
proof (induction cs arbitrary: z_lb g)
  case Nil
  then show ?case by simp
next
  case (Cons c cs)
  obtain blocks cpt where c: "c = (blocks, cpt)" by (cases c) auto
  obtain solved z g' where s: "solve bd L W n blocks z_lb z_ub cpt g = Some (solved, z, g')"
      "z_lb \<le> z" "sameBounds g g'"
    using solve_at_cap[OF Cons.prems] by blast
  show ?case
  proof (cases solved)
    case True
    then show ?thesis using s c by simp
  next
    case False
    have "\<not> n < depthN g'" using Cons.prems s(3) by (simp add: sameBounds_def)
    then obtain z' g'' where r: "BD_loop bd L W n z_ub cs z g' = Some (z', g'')" "z \<le> z'"
        "sameBounds g' g''"
      using Cons.IH by blast
    then show ?thesis using s c False sameBounds_trans[OF s(3) r(3)] by simp
  qed
qed

lemma BD_body_at_cap:
  assumes "\<not> n < depthN g"
  shows "\<exists>z g'. BD_body bd L W n g = Some (z, g') \<and> sameBounds g g' \<and>
           lowerBound g ! idx (indexX g) (max L W) ! idx (indexY g) (min L W) \<le> z"
proof -
  define L' where "L' = (if W > L then W else L)"
  define W' where "W' = (if W > L then L else W)"
  have mm: "max L W = L'" "min L W = W'" by (auto simp: L'_def W'_def)
  let ?iL = "idx (indexX g) L'" and ?iW = "idx (indexY g) W'"
  let ?g1 = "g\<lparr>reachedLimit := set2 (reachedLimit g) ?iL ?iW 0\<rparr>"
  have cap: "\<not> n < depthN ?g1" using assms by simp
  have s1: "sameBounds g ?g1" by simp
  have loop: "\<And>cs z_ub. \<exists>z g'. BD_loop bd L' W' n z_ub cs (lowerBound g ! ?iL ! ?iW) ?g1 = Some (z, g')
        \<and> sameBounds g g' \<and> lowerBound g ! ?iL ! ?iW \<le> z"
  proof -
    fix cs z_ub
    obtain z g' where "BD_loop bd L' W' n z_ub cs (lowerBound g ! ?iL ! ?iW) ?g1 = Some (z, g')"
      "lowerBound g ! ?iL ! ?iW \<le> z" "sameBounds ?g1 g'"
      using BD_loop_at_cap[OF cap] by blast
    then show "\<exists>z g'. BD_loop bd L' W' n z_ub cs (lowerBound g ! ?iL ! ?iW) ?g1 = Some (z, g')
        \<and> sameBounds g g' \<and> lowerBound g ! ?iL ! ?iW \<le> z"
      using sameBounds_trans[OF s1] by blast
  qed
  have unf: "BD_body bd L W n g =
     (let z_lb = lowerBound g ! ?iL ! ?iW; z_ub = localUpperBound g ?iL ?iW
      in if z_lb = 0 \<or> z_lb = z_ub then Some (z_lb, markOptimal g L' W')
         else BD_loop bd L' W' n z_ub
                 (nonGuillotineCuts L' W' (fst (constructRasterPoints (normalize g) L' W' (normalSetX g)))
                      (snd (constructRasterPoints (normalize g) L' W' (normalSetX g)))
                   @ verticalCuts L' W' (fst (constructRasterPoints (normalize g) L' W' (normalSetX g)))
                   @ horizontalCuts L' W' (snd (constructRasterPoints (normalize g) L' W' (normalSetX g))))
                 z_lb ?g1)"
    by (simp add: BD_body_def L'_def W'_def Let_def split_beta)
  show ?thesis
  proof (cases "lowerBound g ! ?iL ! ?iW = 0 \<or> lowerBound g ! ?iL ! ?iW = localUpperBound g ?iL ?iW")
    case True
    then show ?thesis unfolding unf mm Let_def by auto
  next
    case False
    then show ?thesis unfolding unf mm Let_def using loop by simp
  qed
qed

lemma L_in_conic: "L \<in> set (constructConicCombinations L l w)"
proof -
  define c2 where "c2 = fold (conicStep w) [w..<Suc L] (fold (conicStep l) [l..<Suc L] (replicate (L + 2) 0))"
  obtain X inX where p: "fold (collectStep c2) [1..<Suc L] ([0], (replicate (L + 2) 0)[0 := 1]) = (X, inX)"
    by (cases "fold (collectStep c2) [1..<Suc L] ([0], (replicate (L + 2) 0)[0 := 1])") auto
  have ne: "X \<noteq> []" using collect_inv[OF p] by simp
  have eq: "constructConicCombinations L l w = (if last X \<noteq> L then X @ [L] else X)"
    using p by (simp add: constructConicCombinations_def c2_def Let_def)
  show ?thesis
  proof (cases "last X = L")
    case True
    then have "L \<in> set X" using ne last_in_set by metis
    then show ?thesis using eq True by simp
  next
    case False
    then show ?thesis using eq by simp
  qed
qed

lemma normalize_le:
  "x \<le> L \<Longrightarrow> buildNormalize L (constructConicCombinations L l w) ! x \<le> x"
  using buildNormalize_spec[of "constructConicCombinations L l w" x L] conic_sorted[of L l w]
  by (simp add: normInv_def)

lemma normalize_L:
  "buildNormalize L (constructConicCombinations L l w) ! L = L"
  using buildNormalize_spec[of "constructConicCombinations L l w" L L] conic_sorted[of L l w]
    L_in_conic[of L l w]
  by (auto simp add: normInv_def intro: le_antisym)

lemma initialize_fields:
  "depthN (initialize N L W l w) = N"
  "lbWrites (initialize N L W l w) = []"
  "normalize (initialize N L W l w) = buildNormalize L (constructConicCombinations L l w)"
  by (simp_all add: initialize_def Let_def split_beta)

lemma initialize_ordered:
  "W \<le> L \<Longrightarrow> normalize (initialize N L W l w) ! W \<le> normalize (initialize N L W l w) ! L"
  using normalize_le[of W L l w] by (simp add: initialize_fields normalize_L)

lemma top_call_at_cap:
  assumes cap: "\<not> n < depthN g" and nil: "lbWrites g = []" and ord: "Wn \<le> Ln"
  shows "\<exists>s g'. (case BD (Suc k) Ln Wn n g of None \<Rightarrow> None
           | Some (sol, g1) \<Rightarrow>
               Some (sol, writeLowerBound g1 (idx (indexX g1) Ln) (idx (indexY g1) Wn) sol))
          = Some (s, g') \<and> (\<exists>i j old. lbWrites g' = [(i, j, old, s)] \<and> old \<le> s)"
proof -
  obtain z g1 where b: "BD_body (BD k) Ln Wn n g = Some (z, g1)" "sameBounds g g1"
      "lowerBound g ! idx (indexX g) (max Ln Wn) ! idx (indexY g) (min Ln Wn) \<le> z"
    using BD_body_at_cap[OF cap] by blast
  have mm: "max Ln Wn = Ln" "min Ln Wn = Wn" using ord by auto
  have "lbWrites (writeLowerBound g1 (idx (indexX g1) Ln) (idx (indexY g1) Wn) z)
        = [(idx (indexX g) Ln, idx (indexY g) Wn, lowerBound g ! idx (indexX g) Ln ! idx (indexY g) Wn, z)]"
    using b(2) nil by (simp add: writeLowerBound_def sameBounds_def)
  then show ?thesis using b mm by simp
qed

lemma solve_BD_result:
  "\<exists>n g. solve_BD L W l w N_max = Some (n, g) \<and> (\<exists>i j old. lbWrites g = [(i, j, old, n)] \<and> old \<le> n)"
proof -
  have a: "\<And>N L W. W \<le> L \<Longrightarrow> \<exists>s g'. (case BD (Suc (nat (N - N))) (normalize (initialize N L W l w) ! L)
               (normalize (initialize N L W l w) ! W) N (initialize N L W l w) of None \<Rightarrow> None
           | Some (sol, g1) \<Rightarrow>
               Some (sol, writeLowerBound g1 (idx (indexX g1) (normalize (initialize N L W l w) ! L))
                    (idx (indexY g1) (normalize (initialize N L W l w) ! W)) sol))
          = Some (s, g') \<and> (\<exists>i j old. lbWrites g' = [(i, j, old, s)] \<and> old \<le> s)"
  proof -
    fix N :: int and L W :: nat
    assume wl: "W \<le> L"
    have cap: "\<not> N < depthN (initialize N L W l w)" by (simp add: initialize_fields)
    show "\<exists>s g'. (case BD (Suc (nat (N - N))) (normalize (initialize N L W l w) ! L)
               (normalize (initialize N L W l w) ! W) N (initialize N L W l w) of None \<Rightarrow> None
           | Some (sol, g1) \<Rightarrow>
               Some (sol, writeLowerBound g1 (idx (indexX g1) (normalize (initialize N L W l w) ! L))
                    (idx (indexY g1) (normalize (initialize N L W l w) ! W)) sol))
          = Some (s, g') \<and> (\<exists>i j old. lbWrites g' = [(i, j, old, s)] \<and> old \<le> s)"
      using top_call_at_cap[OF cap initialize_fields(2) initialize_ordered[OF wl]] .
  qed
  show ?thesis
  proof (cases "W > L")
    case True
    then have "L \<le> W" by simp
    from a[OF this] show ?thesis using True unfolding solve_BD_def Let_def by simp
  next
    case False
    then have "W \<le> L" by simp
    from a[OF this] show ?thesis using False unfolding solve_BD_def Let_def by simp
  qed
qed

text \<open>
  C9.  A call of \<open>solve_BD\<close> returns, and every assignment to \<open>lowerBound[i][j]\<close> made after
  the table was seeded by \<open>initialize\<close> stores a value that is at least the value it
  replaces.  (\<open>lbWrites\<close> lists those assignments with the replaced and the stored value.)
\<close>

theorem C9_lowerBound_writes_monotone:
  "\<exists>n g. solve_BD L W l w N_max = Some (n, g) \<and>
     (\<forall>(i, j, old, new) \<in> set (lbWrites g). old \<le> new)"
  using solve_BD_result[of L W l w N_max] by fastforce

lemma solve_BD_13_7_5_3:
  "map_option (\<lambda>(n, g). (n, lbWrites g)) (solve_BD 13 7 5 3 0) = Some (5, [(6, 3, 4, 5)])"
  by code_simp

theorem C9_lowerBound_writes_monotone_witness:
  "\<exists>n g. solve_BD 13 7 5 3 0 = Some (n, g) \<and> (6, 3, 4, 5) \<in> set (lbWrites g) \<and> (4::int) \<le> 5"
proof -
  obtain n g where r: "solve_BD 13 7 5 3 0 = Some (n, g)"
      and m: "\<forall>(i, j, old, new) \<in> set (lbWrites g). old \<le> new"
    using C9_lowerBound_writes_monotone[of 13 7 5 3 0] by blast
  have w: "lbWrites g = [(6, 3, 4, 5)]" using solve_BD_13_7_5_3 r by simp
  then have "(6, 3, 4, 5) \<in> set (lbWrites g)" by simp
  then have "(4::int) \<le> 5" using m by blast
  then show ?thesis using r w by simp
qed


section \<open>The raster points and the index arrays\<close>

lemma strict_sorted_append_one:
  "sorted_wrt (<) (Y :: nat list) \<Longrightarrow> Y = [] \<or> last Y < v \<Longrightarrow> sorted_wrt (<) (Y @ [v])"
proof -
  assume s: "sorted_wrt (<) Y" and l: "Y = [] \<or> last Y < v"
  have "\<forall>y\<in>set Y. y < v"
  proof
    fix y assume "y \<in> set Y"
    then have "y \<le> last Y" "Y \<noteq> []" using strict_sorted_le_last[OF s] by auto
    then show "y < v" using l by auto
  qed
  then show ?thesis using s by (simp add: sorted_wrt_append)
qed

lemma insert_set_sorted: "sorted_wrt (<) Y \<Longrightarrow> sorted_wrt (<) (insert_set v Y)"
  by (auto simp: insert_set_def intro: strict_sorted_append_one)

lemma insert_set_subset: "set (insert_set v Y) \<subseteq> insert v (set Y)"
  by (auto simp: insert_set_def)

lemma insert_set_keeps: "set Y \<subseteq> set (insert_set v Y)"
  by (auto simp: insert_set_def)

lemma insert_set_last: "insert_set v Y \<noteq> [] \<and> v \<le> last (insert_set v Y)"
  by (auto simp: insert_set_def)

lemma rasterFold_sorted:
  "sorted_wrt (<) acc \<Longrightarrow> sorted_wrt (<) (fold (\<lambda>c X. insert_set (f c) X) cs acc)"
  by (induction cs arbitrary: acc) (auto simp: insert_set_sorted)

lemma rasterFold_subset:
  "set (fold (\<lambda>c X. insert_set (f c) X) cs acc) \<subseteq> f ` set cs \<union> set acc"
proof (induction cs arbitrary: acc)
  case Nil
  then show ?case by simp
next
  case (Cons c cs)
  have "set (fold (\<lambda>c X. insert_set (f c) X) cs (insert_set (f c) acc))
        \<subseteq> f ` set cs \<union> set (insert_set (f c) acc)" using Cons.IH .
  then show ?case using insert_set_subset[of "f c" acc] by auto
qed

lemma rasterFold_last:
  "cs \<noteq> [] \<Longrightarrow> fold (\<lambda>c X. insert_set (f c) X) cs acc \<noteq> [] \<and>
     f (last cs) \<le> last (fold (\<lambda>c X. insert_set (f c) X) cs acc)"
proof (induction cs arbitrary: acc)
  case Nil
  then show ?case by simp
next
  case (Cons c cs)
  show ?case
  proof (cases "cs = []")
    case True
    then show ?thesis using insert_set_last[of "f c" acc] by simp
  next
    case False
    then show ?thesis using Cons.IH[OF False] by simp
  qed
qed

lemma trimAbove_props:
  assumes "pts \<noteq> []" and "hd pts = 0"
  shows "trimAbove W pts \<noteq> [] \<and> hd (trimAbove W pts) = 0 \<and> set (trimAbove W pts) \<subseteq> set pts"
proof -
  obtain rest where p: "pts = 0 # rest" using assms by (cases pts) auto
  have dw: "dropWhile (\<lambda>p. W < p) (rev rest @ [0]) = dropWhile (\<lambda>p. W < p) (rev rest) @ [0] \<or>
        dropWhile (\<lambda>p. W < p) (rev rest @ [0]) = [0]"
    by (auto simp: dropWhile_append)
  have sub: "set (dropWhile (\<lambda>p. W < p) (rev rest)) \<subseteq> set rest"
    using set_dropWhileD by fastforce
  show ?thesis using dw sub unfolding trimAbove_def p by auto
qed

text \<open>The raster points of a length \<open>V \<le> L\<close>, for the table built by \<open>initialize\<close> and any
  set \<open>cc\<close> that starts with 0.\<close>

lemma rasterLoop_props:
  assumes "V \<le> L"
    and X0_def: "X0 = constructConicCombinations L l w"
    and nrm_def: "nrm = buildNormalize L X0"
    and cc: "cc \<noteq> []" "hd cc = 0"
  shows "sorted_wrt (<) (rasterLoop nrm V cc)"
    and "\<forall>x\<in>set (rasterLoop nrm V cc). x \<le> nrm ! V"
    and "nrm ! V \<in> set (rasterLoop nrm V cc)"
proof -
  let ?f = "\<lambda>c. nrm ! (V - c)"
  let ?cs = "rev (trimAbove V cc)"
  have X0: "sorted_wrt (<) X0" "X0 \<noteq> []" "hd X0 = 0"
    using conic_sorted[of L l w] by (simp_all add: X0_def)
  have ni: "\<And>x. x \<le> L \<Longrightarrow> normInv X0 x (nrm ! x)"
    using buildNormalize_spec[OF X0] by (simp add: nrm_def)
  have tr: "trimAbove V cc \<noteq> []" "hd (trimAbove V cc) = 0"
    using trimAbove_props[OF cc] by auto
  have eq: "rasterLoop nrm V cc = fold (\<lambda>c X. insert_set (?f c) X) ?cs []"
    by (simp add: rasterLoop_def)
  show "sorted_wrt (<) (rasterLoop nrm V cc)"
    unfolding eq by (rule rasterFold_sorted) simp
  have le: "\<forall>x\<in>set (rasterLoop nrm V cc). x \<le> nrm ! V"
  proof
    fix x assume "x \<in> set (rasterLoop nrm V cc)"
    then obtain c where x: "x = nrm ! (V - c)"
      using rasterFold_subset[of ?f ?cs "[]"] unfolding eq by auto
    have a: "normInv X0 (V - c) x" using ni[of "V - c"] assms(1) x by simp
    have b: "normInv X0 V (nrm ! V)" using ni[of V] assms(1) by simp
    from a have "x \<in> set X0" "x \<le> V" by (auto simp: normInv_def)
    then show "x \<le> nrm ! V" using b by (auto simp: normInv_def)
  qed
  then show "\<forall>x\<in>set (rasterLoop nrm V cc). x \<le> nrm ! V" .
  have "last ?cs = 0" using tr by (simp add: last_rev)
  then have l: "rasterLoop nrm V cc \<noteq> []" "nrm ! V \<le> last (rasterLoop nrm V cc)"
    using rasterFold_last[of ?cs ?f "[]"] tr unfolding eq by auto
  then have "last (rasterLoop nrm V cc) \<in> set (rasterLoop nrm V cc)" by simp
  then have "last (rasterLoop nrm V cc) = nrm ! V" using le l(2) by (meson le_antisym)
  then show "nrm ! V \<in> set (rasterLoop nrm V cc)" using l(1) last_in_set by metis
qed


lemma mergeRaster_spec:
  assumes "sorted_wrt (<) xs" and "sorted_wrt (<) ys"
    and "\<forall>x\<in>set xs. x \<le> Ln" and "\<forall>y\<in>set ys. y \<le> Wn"
    and "sorted_wrt (<) acc" and "\<forall>a\<in>set acc. \<forall>x\<in>set xs \<union> set ys. a < x"
    and "ys \<noteq> [] \<longrightarrow> xs \<noteq> [] \<and> last ys \<le> last xs"
  shows "sorted_wrt (<) (fst (mergeRaster Ln Wn xs ys acc) @ snd (mergeRaster Ln Wn xs ys acc)) \<and>
         set (fst (mergeRaster Ln Wn xs ys acc) @ snd (mergeRaster Ln Wn xs ys acc))
           = set acc \<union> set xs \<union> set ys \<and>
         (acc \<noteq> [] \<or> ys \<noteq> [] \<longrightarrow> fst (mergeRaster Ln Wn xs ys acc) \<noteq> []) \<and>
         (\<forall>x\<in>set (snd (mergeRaster Ln Wn xs ys acc)). x \<le> Ln)"
  using assms
proof (induction Ln Wn xs ys acc rule: mergeRaster.induct)
  case (1 L_n W_n x xs y ys acc)
  have b: "x \<le> L_n" "y \<le> W_n" using "1.prems"(3,4) by auto
  have sx: "sorted_wrt (<) xs" "\<forall>z\<in>set xs. x < z" using "1.prems"(1) by auto
  have sy: "sorted_wrt (<) ys" "\<forall>z\<in>set ys. y < z" using "1.prems"(2) by auto
  have lx: "x \<le> last (x # xs)" "y \<le> last (y # ys)"
    using strict_sorted_le_last[OF "1.prems"(1), of x] strict_sorted_le_last[OF "1.prems"(2), of y]
    by auto
  have ll: "last (y # ys) \<le> last (x # xs)" using "1.prems"(7) by simp
  consider (eq) "x = y" | (lt) "x < y" | (gt) "y < x" by linarith
  then show ?case
  proof cases
    case eq
    have p5: "sorted_wrt (<) (acc @ [x])"
      using "1.prems"(5,6) by (auto simp: sorted_wrt_append)
    have p6: "\<forall>a\<in>set (acc @ [x]). \<forall>z\<in>set xs \<union> set ys. a < z"
      using "1.prems"(6) sx sy eq by auto
    have p7: "ys \<noteq> [] \<longrightarrow> xs \<noteq> [] \<and> last ys \<le> last xs"
    proof
      assume ne: "ys \<noteq> []"
      then have "y < last ys" using sy(2) last_in_set by blast
      then have "x < last (x # xs)" using ll ne eq by simp
      then have "xs \<noteq> []" by auto
      then show "xs \<noteq> [] \<and> last ys \<le> last xs" using ll ne by simp
    qed
    have ih: "sorted_wrt (<) (fst (mergeRaster L_n W_n xs ys (acc @ [x])) @ snd (mergeRaster L_n W_n xs ys (acc @ [x]))) \<and>
         set (fst (mergeRaster L_n W_n xs ys (acc @ [x])) @ snd (mergeRaster L_n W_n xs ys (acc @ [x])))
           = set (acc @ [x]) \<union> set xs \<union> set ys \<and>
         (acc @ [x] \<noteq> [] \<or> ys \<noteq> [] \<longrightarrow> fst (mergeRaster L_n W_n xs ys (acc @ [x])) \<noteq> []) \<and>
         (\<forall>z\<in>set (snd (mergeRaster L_n W_n xs ys (acc @ [x]))). z \<le> L_n)"
      using "1.IH"(1)[OF _ eq sx(1) sy(1) _ _ p5 p6 p7] b "1.prems"(3,4) by simp
    show ?thesis using ih b eq by auto
  next
    case lt
    have p5: "sorted_wrt (<) (acc @ [x])"
      using "1.prems"(5,6) by (auto simp: sorted_wrt_append)
    have p6: "\<forall>a\<in>set (acc @ [x]). \<forall>z\<in>set xs \<union> set (y # ys). a < z"
      using "1.prems"(6) sx sy lt by auto
    have "x < last (x # xs)" using lt lx(2) ll by linarith
    then have xne: "xs \<noteq> []" by auto
    then have p7: "y # ys \<noteq> [] \<longrightarrow> xs \<noteq> [] \<and> last (y # ys) \<le> last xs" using ll by simp
    have ih: "sorted_wrt (<) (fst (mergeRaster L_n W_n xs (y # ys) (acc @ [x])) @ snd (mergeRaster L_n W_n xs (y # ys) (acc @ [x]))) \<and>
         set (fst (mergeRaster L_n W_n xs (y # ys) (acc @ [x])) @ snd (mergeRaster L_n W_n xs (y # ys) (acc @ [x])))
           = set (acc @ [x]) \<union> set xs \<union> set (y # ys) \<and>
         (acc @ [x] \<noteq> [] \<or> y # ys \<noteq> [] \<longrightarrow> fst (mergeRaster L_n W_n xs (y # ys) (acc @ [x])) \<noteq> []) \<and>
         (\<forall>z\<in>set (snd (mergeRaster L_n W_n xs (y # ys) (acc @ [x]))). z \<le> L_n)"
      using "1.IH"(2)[OF _ _ lt sx(1) "1.prems"(2) _ "1.prems"(4) p5 p6 p7] b lt "1.prems"(3) by simp
    show ?thesis using ih b lt by auto
  next
    case gt
    have p5: "sorted_wrt (<) (acc @ [y])"
      using "1.prems"(5,6) by (auto simp: sorted_wrt_append)
    have p6: "\<forall>a\<in>set (acc @ [y]). \<forall>z\<in>set (x # xs) \<union> set ys. a < z"
      using "1.prems"(6) sx sy gt by auto
    have p7: "ys \<noteq> [] \<longrightarrow> x # xs \<noteq> [] \<and> last ys \<le> last (x # xs)"
      using ll by (auto split: if_splits)
    have ih: "sorted_wrt (<) (fst (mergeRaster L_n W_n (x # xs) ys (acc @ [y])) @ snd (mergeRaster L_n W_n (x # xs) ys (acc @ [y]))) \<and>
         set (fst (mergeRaster L_n W_n (x # xs) ys (acc @ [y])) @ snd (mergeRaster L_n W_n (x # xs) ys (acc @ [y])))
           = set (acc @ [y]) \<union> set (x # xs) \<union> set ys \<and>
         (acc @ [y] \<noteq> [] \<or> ys \<noteq> [] \<longrightarrow> fst (mergeRaster L_n W_n (x # xs) ys (acc @ [y])) \<noteq> []) \<and>
         (\<forall>z\<in>set (snd (mergeRaster L_n W_n (x # xs) ys (acc @ [y]))). z \<le> L_n)"
      using "1.IH"(3)[OF _ _ _ "1.prems"(1) sy(1) "1.prems"(3) _ p5 p6 p7] b gt "1.prems"(4) by simp
    show ?thesis using ih b gt by auto
  qed
qed (auto simp: sorted_wrt_append)

lemma drainRaster_all:
  "sorted_wrt (<) (acc @ rest) \<Longrightarrow> acc \<noteq> [] \<Longrightarrow> \<forall>x\<in>set rest. x \<le> Ln \<Longrightarrow>
   drainRaster Ln rest acc = acc @ rest"
proof (induction rest arbitrary: acc)
  case Nil
  then show ?case by simp
next
  case (Cons x xs)
  have "last acc \<in> set acc" using Cons.prems(2) by simp
  then have lt: "last acc < x" using Cons.prems(1) by (auto simp: sorted_wrt_append)
  have "drainRaster Ln xs (acc @ [x]) = (acc @ [x]) @ xs"
    using Cons.IH[of "acc @ [x]"] Cons.prems by simp
  then show ?case using lt Cons.prems(3) by simp
qed

lemma mergedPoints_spec:
  assumes "sorted_wrt (<) X" and "sorted_wrt (<) Y"
    and "\<forall>x\<in>set X. x \<le> Ln" and "\<forall>y\<in>set Y. y \<le> Wn"
    and "Ln \<in> set X" and "Wn \<in> set Y" and "Wn \<le> Ln"
  shows "sorted_wrt (<) (mergedPoints Ln Wn X Y) \<and>
         set (mergedPoints Ln Wn X Y) = set X \<union> set Y \<union> {Ln + 1}"
proof -
  let ?m = "mergeRaster Ln Wn X Y []"
  have lastX: "last X = Ln"
    using strict_sorted_le_last[OF assms(1) assms(5)] assms(3,5) last_in_set[of X]
    by (metis empty_iff empty_set le_antisym)
  have lastY: "last Y \<le> Wn" using assms(4,6) last_in_set[of Y] by (metis empty_iff empty_set)
  have p7: "Y \<noteq> [] \<longrightarrow> X \<noteq> [] \<and> last Y \<le> last X" using lastX lastY assms(5,7) by auto
  have m: "sorted_wrt (<) (fst ?m @ snd ?m)" "set (fst ?m @ snd ?m) = set X \<union> set Y"
      "fst ?m \<noteq> []" "\<forall>x\<in>set (snd ?m). x \<le> Ln"
    using mergeRaster_spec[OF assms(1,2,3,4), of "[]"] p7 assms(6) by auto
  have d: "drainRaster Ln (snd ?m) (fst ?m) = fst ?m @ snd ?m"
    using drainRaster_all[OF m(1) m(3) m(4)] .
  let ?M = "fst ?m @ snd ?m"
  have Mne: "?M \<noteq> []" using m(3) by simp
  have allM: "\<forall>x\<in>set ?M. x \<le> Ln"
  proof
    fix x assume "x \<in> set ?M"
    then have "x \<in> set X \<union> set Y" by (simp only: m(2))
    then show "x \<le> Ln" using assms(3,4,7) by auto
  qed
  have "last ?M \<in> set ?M" using Mne last_in_set by blast
  then have "last ?M \<le> Ln" using allM by blast
  moreover have "Ln \<le> last ?M" using strict_sorted_le_last[OF m(1), of Ln] m(2) assms(5) by auto
  ultimately have lastM: "last ?M = Ln" by simp
  have eq: "mergedPoints Ln Wn X Y = ?M @ [Ln + 1]"
    using d lastM by (simp add: mergedPoints_def split_beta Let_def)
  have "\<forall>x\<in>set ?M. x < Ln + 1"
  proof
    fix x assume "x \<in> set ?M"
    then have "x \<le> Ln" using allM by blast
    then show "x < Ln + 1" by simp
  qed
  moreover have "set (?M @ [Ln + 1]) = set X \<union> set Y \<union> {Ln + 1}"
    using m(2) by (simp only: set_append[of ?M "[Ln + 1]"]) simp
  ultimately show ?thesis using m(1) unfolding eq by (simp only: sorted_wrt_append) simp

qed

lemma buildIndex_Suc: "buildIndex pts (Suc n) = (buildIndex pts n)(pts ! n \<mapsto> n)"
  by (simp add: buildIndex_def)

lemma buildIndex_nth:
  "distinct pts \<Longrightarrow> n \<le> length pts \<Longrightarrow> i < n \<Longrightarrow> buildIndex pts n (pts ! i) = Some i"
proof (induction n)
  case 0
  then show ?case by simp
next
  case (Suc n)
  show ?case
  proof (cases "i = n")
    case True
    then show ?thesis by (simp add: buildIndex_Suc)
  next
    case False
    then have "i < n" using Suc.prems by simp
    moreover have "pts ! i \<noteq> pts ! n"
      using Suc.prems False by (simp add: nth_eq_iff_index_eq)
    ultimately show ?thesis using Suc by (simp add: buildIndex_Suc)
  qed
qed

lemma takeWhile_reaches:
  assumes "sorted_wrt (<) (pts :: nat list)" and "q < length pts" and "pts ! q \<le> b"
  shows "q < length (takeWhile (\<lambda>p. p \<le> b) pts)"
proof (rule ccontr)
  let ?n = "length (takeWhile (\<lambda>p. p \<le> b) pts)"
  assume "\<not> q < ?n"
  then have nq: "?n \<le> q" by simp
  then have nl: "?n < length pts" using assms(2) by simp
  then have "\<not> pts ! ?n \<le> b" using nth_length_takeWhile by blast
  moreover have "pts ! ?n \<le> pts ! q"
    using assms(1,2) nq by (cases "?n = q") (auto simp: sorted_wrt_iff_nth_less less_imp_le)
  ultimately show False using assms(3) by simp
qed

text \<open>The cell of the whole pallet in the tables built by \<open>initialize\<close>.\<close>

lemma initialize_top:
  assumes "W \<le> L" and g_def: "g = initialize N L W l w"
  shows "\<exists>p q. idx (indexX g) (normalize g ! L) = p \<and> idx (indexY g) (normalize g ! W) = q \<and>
           p < length (lowerBound g) \<and> q < length (lowerBound g ! p) \<and>
           lowerBound g ! p ! q = lowerBound_macro (normalize g ! L) (normalize g ! W) l w \<and>
           p < length (cutPoints g) \<and> q < length (cutPoints g ! p) \<and>
           homogeneous (cutPoints g ! p ! q) = 1"
proof -
  define X0 where "X0 = constructConicCombinations L l w"
  define nrm where "nrm = buildNormalize L X0"
  define Ln where "Ln = nrm ! L"
  define Wn where "Wn = nrm ! W"
  define rX where "rX = rasterLoop nrm L X0"
  define rY where "rY = rasterLoop nrm W X0"
  define pts where "pts = mergedPoints Ln Wn rX rY"
  define ySize where "ySize = length (takeWhile (\<lambda>p. p \<le> Wn) pts)"
  have X0p: "X0 \<noteq> []" "hd X0 = 0" using conic_sorted[of L l w] by (simp_all add: X0_def)
  have rXp: "sorted_wrt (<) rX" "\<forall>x\<in>set rX. x \<le> Ln" "Ln \<in> set rX"
    using rasterLoop_props[OF order_refl X0_def nrm_def X0p] by (simp_all add: rX_def Ln_def)
  have rYp: "sorted_wrt (<) rY" "\<forall>x\<in>set rY. x \<le> Wn" "Wn \<in> set rY"
    using rasterLoop_props[OF assms(1) X0_def nrm_def X0p] by (simp_all add: rY_def Wn_def)
  have LnL: "Ln = L" using normalize_L[of L l w] by (simp add: Ln_def nrm_def X0_def)
  have WnW: "Wn \<le> W" using normalize_le[OF assms(1), of l w] by (simp add: Wn_def nrm_def X0_def)
  have wl: "Wn \<le> Ln" using LnL WnW assms(1) by simp
  have mp: "sorted_wrt (<) pts" "set pts = set rX \<union> set rY \<union> {Ln + 1}"
    using mergedPoints_spec[OF rXp(1) rYp(1) rXp(2) rYp(2) rXp(3) rYp(3) wl] by (simp_all add: pts_def)
  have dist: "distinct pts" using mp(1) strict_sorted_iff by (metis sorted_wrt_iff_nth_less distinct_conv_nth less_irrefl linorder_neqE_nat)
  obtain p where p: "p < length pts" "pts ! p = Ln" using mp(2) rXp(3) by (metis UnI1 in_set_conv_nth)
  obtain q where q: "q < length pts" "pts ! q = Wn" using mp(2) rYp(3) by (metis UnI1 UnI2 in_set_conv_nth)
  have qy: "q < ySize" using takeWhile_reaches[OF mp(1) q(1)] q(2) by (simp add: ySize_def)
  have yl: "ySize \<le> length pts" by (simp add: ySize_def length_takeWhile_le)
  have g: "normalize g = nrm" "indexX g = buildIndex pts (length pts)" "indexY g = buildIndex pts ySize"
      "lowerBound g = map (\<lambda>x. map (\<lambda>y. lowerBound_macro x y l w) (take ySize pts)) pts"
      "cutPoints g = map (\<lambda>x. map (\<lambda>y. \<lparr>cx1 = 0, cx2 = 0, cy1 = 0, cy2 = 0, homogeneous = 1\<rparr>) (take ySize pts)) pts"
    by (simp_all add: g_def initialize_def Let_def split_beta constructRasterPoints_def
          X0_def nrm_def Ln_def Wn_def rX_def rY_def pts_def ySize_def)
  have ix: "idx (indexX g) (normalize g ! L) = p"
    using buildIndex_nth[OF dist order_refl p(1)] p(2) by (simp add: idx_def g Ln_def)
  have iy: "idx (indexY g) (normalize g ! W) = q"
    using buildIndex_nth[OF dist yl qy] q(2) by (simp add: idx_def g Wn_def)
  show ?thesis
    using ix iy p q qy yl by (simp add: g Ln_def Wn_def)
qed


section \<open>Properties of the entry point\<close>

lemma BD_body_zero:
  assumes "lowerBound g ! idx (indexX g) L ! idx (indexY g) W = 0" and "W \<le> L"
  shows "BD_body bd L W n g = Some (0, markOptimal g L W)"
  using assms by (simp add: BD_body_def Let_def)

lemma solve_BD_ge_seed:
  assumes "W \<le> L"
  shows "\<exists>n g'. solve_BD L W l w N_max = Some (n, g') \<and>
     lowerBound_macro (buildNormalize L (constructConicCombinations L l w) ! L)
        (buildNormalize L (constructConicCombinations L l w) ! W) l w \<le> n"
proof -
  define N where "N = (if N_max \<le> 0 then INFINITY_C else N_max)"
  define g where "g = initialize N L W l w"
  define Ln where "Ln = normalize g ! L"
  define Wn where "Wn = normalize g ! W"
  have cap: "\<not> N < depthN g" by (simp add: g_def initialize_fields)
  have ord: "Wn \<le> Ln" using initialize_ordered[OF assms] by (simp add: Ln_def Wn_def g_def)
  obtain z g1 where b: "BD_body (BD 0) Ln Wn N g = Some (z, g1)" "sameBounds g g1"
      "lowerBound g ! idx (indexX g) (max Ln Wn) ! idx (indexY g) (min Ln Wn) \<le> z"
    using BD_body_at_cap[OF cap] by blast
  have top: "lowerBound g ! idx (indexX g) Ln ! idx (indexY g) Wn = lowerBound_macro Ln Wn l w"
    using initialize_top[OF assms g_def] by (auto simp: Ln_def Wn_def)
  have mm: "max Ln Wn = Ln" "min Ln Wn = Wn" using ord by auto
  have "solve_BD L W l w N_max =
      Some (z, writeLowerBound g1 (idx (indexX g1) Ln) (idx (indexY g1) Wn) z)"
    using b(1) assms
    by (simp add: solve_BD_def Let_def N_def[symmetric] g_def[symmetric] Ln_def[symmetric] Wn_def[symmetric])
  moreover have "lowerBound_macro Ln Wn l w \<le> z" using b(3) top mm by simp
  ultimately show ?thesis by (simp add: Ln_def Wn_def g_def initialize_fields)
qed

lemma solve_BD_infeasible:
  assumes "W \<le> L" and "g = initialize INFINITY_C L W l w"
    and "lowerBound_macro (normalize g ! L) (normalize g ! W) l w = 0"
  shows "\<exists>g'. solve_BD L W l w 0 = Some (0, g') \<and> cutPoints g' = cutPoints g \<and>
           indexX g' = indexX g \<and> indexY g' = indexY g \<and> normalize g' = normalize g"
proof -
  let ?Ln = "normalize g ! L" and ?Wn = "normalize g ! W"
  have ord: "?Wn \<le> ?Ln" using initialize_ordered[OF assms(1)] assms(2) by simp
  have top: "lowerBound g ! idx (indexX g) ?Ln ! idx (indexY g) ?Wn = 0"
    using initialize_top[OF assms(1,2)] assms(3) by auto
  have b: "BD_body (BD 0) ?Ln ?Wn INFINITY_C g = Some (0, markOptimal g ?Ln ?Wn)"
    using BD_body_zero[OF top ord] .
  have "solve_BD L W l w 0 =
      Some (0, writeLowerBound (markOptimal g ?Ln ?Wn)
                 (idx (indexX (markOptimal g ?Ln ?Wn)) ?Ln) (idx (indexY (markOptimal g ?Ln ?Wn)) ?Wn) 0)"
    using b assms(1) by (simp add: solve_BD_def Let_def assms(2)[symmetric])
  then show ?thesis by (simp add: writeLowerBound_def markOptimal_def)
qed

lemma too_large_seed:
  assumes "L < b" and "W < b" and "Ln \<le> L" and "Wn \<le> W"
  shows "lowerBound_macro Ln Wn b c = 0" and "lowerBound_macro Ln Wn c b = 0"
  using assms by (simp_all add: lowerBound_macro_def)

lemma draw_top_homogeneous:
  assumes "W \<le> L" and "homogeneous (cutPoints g ! idx (indexX g) L ! idx (indexY g) W) = 1"
  shows "drawBD (Suc k) g l w L W out = Some (out @ drawHomogeneous l w L W 0 0)"
  using assms by (simp add: drawBD_def draw_body_def drawNormal_def Let_def)

lemma pack_too_large:
  assumes pos: "0 < inL" "0 < inW" "0 < inl" "0 < inw"
    and big: "(inl > inL \<and> inl > inW) \<or> (inw > inL \<and> inw > inW)"
  shows "pack (Suc k) inL inW inl inw = Some (Inr [])"
proof -
  define L where "L = nat (if inL < inW then inW else inL)"
  define W where "W = nat (if inL < inW then inL else inW)"
  define g where "g = initialize INFINITY_C L W (nat inl) (nat inw)"
  have wl: "W \<le> L" by (auto simp: L_def W_def nat_le_eq_zle)
  have nl: "normalize g ! L \<le> L" "normalize g ! W \<le> W"
    using normalize_le[of L L "nat inl" "nat inw"] normalize_le[OF wl, of "nat inl" "nat inw"]
    by (simp_all add: g_def initialize_fields)
  have big': "(L < nat inl \<and> W < nat inl) \<or> (L < nat inw \<and> W < nat inw)"
    using big pos by (auto simp: L_def W_def)
  have seed: "lowerBound_macro (normalize g ! L) (normalize g ! W) (nat inl) (nat inw) = 0"
    using big' too_large_seed[OF _ _ nl] by blast
  obtain g' where s: "solve_BD L W (nat inl) (nat inw) 0 = Some (0, g')" "cutPoints g' = cutPoints g"
      "indexX g' = indexX g" "indexY g' = indexY g" "normalize g' = normalize g"
    using solve_BD_infeasible[OF wl g_def seed] by blast
  have hom: "homogeneous (cutPoints g' ! idx (indexX g') (normalize g' ! L) ! idx (indexY g') (normalize g' ! W)) = 1"
    using initialize_top[OF wl g_def] s by auto
  have ord: "normalize g' ! W \<le> normalize g' ! L"
    using initialize_ordered[OF wl] s(5) by (simp add: g_def)
  have d: "drawBD (Suc k) g' (nat inl) (nat inw) (normalize g' ! L) (normalize g' ! W) []
      = Some ([] @ drawHomogeneous (nat inl) (nat inw) (normalize g' ! L) (normalize g' ! W) 0 0)"
    using draw_top_homogeneous[OF ord hom] .
  show ?thesis
    using pos s(1) d
    by (simp add: pack_def Let_def L_def[symmetric] W_def[symmetric] MakeJsonString_def)
qed

text \<open>
  C3 (as amended).  If some dimension is \<open>\<le> 0\<close>, \<open>pack\<close> produces no placement and signals
  the error (it returns \<open>NULL\<close>).  If all dimensions are positive and \<open>l > L\<close> and \<open>l > W\<close>,
  or \<open>w > L\<close> and \<open>w > W\<close>, \<open>pack\<close> returns the empty placement list and signals no error:
  the only check it makes is the one on the signs.
\<close>

theorem C3_invalid_input:
  "(inL \<le> 0 \<or> inW \<le> 0 \<or> inl \<le> 0 \<or> inw \<le> 0 \<longrightarrow>
      pack k inL inW inl inw = Some (Inl InvalidDimensions)) \<and>
   (0 < inL \<and> 0 < inW \<and> 0 < inl \<and> 0 < inw \<and>
    ((inl > inL \<and> inl > inW) \<or> (inw > inL \<and> inw > inW)) \<longrightarrow>
      pack (Suc k) inL inW inl inw = Some (Inr []))"
  using pack_too_large[of inL inW inl inw k] by (auto simp: pack_def)

theorem C3_invalid_input_witness:
  "(0::int) \<le> 0 \<and> pack 0 0 5 2 2 = Some (Inl InvalidDimensions) \<and>
   (1::int) < 2 \<and> pack 1 1 1 2 2 = Some (Inr [])"
  using C3_invalid_input[of 0 5 2 2 0] C3_invalid_input[of 1 1 2 2 0] by simp

text \<open>
  C3 as stated asks for an error when the box is larger than the pallet.  For the pallet
  \<open>1 \<times> 1\<close> and the box \<open>2 \<times> 2\<close> no error is signalled.
\<close>

theorem C3_counterexample:
  "(2::int) > 1 \<and> pack 1 1 1 2 2 \<noteq> Some (Inl InvalidDimensions)"
  using pack_too_large[of 1 1 2 2 0] by simp


section \<open>The split of a non-degenerate L-piece into two rectangles\<close>

text \<open>\<open>LCut\<close> compares the same two sums as \<open>L_LowerBound\<close>, in the other order.\<close>

lemma LCut_sums:
  "LCut g q = (if verticalSum g q > horizontalSum g q then VERTICAL_CUT else HORIZONTAL_CUT)"
  by (cases q) (simp add: LCut_def verticalSum_def horizontalSum_def R_LowerBound_def Let_def)

text \<open>The record that \<open>solve\<close> stores for a non-degenerate piece before it tries any
  subdivision carries the tag \<open>B1\<close>.\<close>

lemma seedL_tag:
  assumes "0 \<le> fst (L_LowerBound g q)" and "fst (L_LowerBound g q) < 2 ^ 27"
  shows "divisionType (fst (seedL g q)) = B1"
proof -
  obtain q0 q1 q2 q3 where q: "q = (q0, q1, q2, q3)" by (cases q) auto
  obtain lb hc where l: "L_LowerBound g q = (lb, hc)" by (cases "L_LowerBound g q") auto
  have b: "0 \<le> lb" "lb < 2 ^ 27" using assms l by simp_all
  have "uint (word_of_int lb :: int32) = lb"
    using b by (simp add: uint_word_of_int take_bit_int_eq_self)
  then have c: "uint (word_of_int lb :: int32) < 2 ^ 27" using b by simp
  have t: "uint (B1 :: int32) < 2 ^ 4" by (simp add: B1_def)
  have "fst (seedL g q) = packSolution (word_of_int lb) B1"
    using l by (simp add: seedL_def q packSolution_def)
  then show ?thesis using solution_word_roundtrip(2)[OF c t] by simp
qed


section \<open>The index of an L-piece in the dense array\<close>

lemma writeLowerBound_tables:
  "normalize (writeLowerBound g i j v) = normalize g \<and> normalSetX (writeLowerBound g i j v) = normalSetX g"
  by (simp add: writeLowerBound_def)

lemma solve_BD_tables:
  assumes "W \<le> L" and "solve_BD L W l w N_max = Some (n, g)"
    and N_def: "N = (if N_max \<le> 0 then INFINITY_C else N_max)"
  shows "normalize g = normalize (initialize N L W l w) \<and>
         normalSetX g = normalSetX (initialize N L W l w)"
proof -
  define g0 where "g0 = initialize N L W l w"
  have cap: "\<not> N < depthN g0" by (simp add: g0_def initialize_fields)
  obtain z g1 where b: "BD (Suc (nat (N - N))) (normalize g0 ! L) (normalize g0 ! W) N g0 = Some (z, g1)"
      "sameBounds g0 g1"
    using BD_body_at_cap[OF cap] by (metis BD.simps(2))
  have "g = writeLowerBound g1 (idx (indexX g1) (normalize g0 ! L)) (idx (indexY g1) (normalize g0 ! W)) z"
    using assms b(1) unfolding solve_BD_def Let_def N_def[symmetric] g0_def[symmetric]
    by (auto simp: g0_def[symmetric])
  then have "normalize g = normalize g0 \<and> normalSetX g = normalSetX g0"
    using b(2) by (simp add: writeLowerBound_tables sameBounds_def)
  then show ?thesis unfolding g0_def by blast
qed

lemma rasterFold_first:
  "f c \<in> set (fold (\<lambda>c X. insert_set (f c) X) (c # cs) [])"
proof -
  have "\<And>acc. set acc \<subseteq> set (fold (\<lambda>c X. insert_set (f c) X) cs acc)"
  proof (induction cs)
    case Nil
    then show ?case by simp
  next
    case (Cons a cs)
    show ?case using Cons[of "insert_set (f a) acc"] insert_set_keeps[of acc "f a"] by auto
  qed
  from this[of "insert_set (f c) []"] show ?thesis by (auto simp: insert_set_def)
qed

lemma strict_sorted_hd_zero:
  "sorted_wrt (<) (xs :: nat list) \<Longrightarrow> 0 \<in> set xs \<Longrightarrow> hd xs = 0"
  by (cases xs) auto

text \<open>The set that \<open>initialize\<close> leaves in \<open>normalSetX\<close>.\<close>

lemma initialize_points:
  assumes "W \<le> L"
  shows "sorted_wrt (<) (normalSetX (initialize N L W l w)) \<and>
         normalSetX (initialize N L W l w) \<noteq> [] \<and> hd (normalSetX (initialize N L W l w)) = 0"
proof -
  define X0 where "X0 = constructConicCombinations L l w"
  define nrm where "nrm = buildNormalize L X0"
  define Ln where "Ln = nrm ! L"
  define Wn where "Wn = nrm ! W"
  define rX where "rX = rasterLoop nrm L X0"
  define rY where "rY = rasterLoop nrm W X0"
  define pts where "pts = mergedPoints Ln Wn rX rY"
  have X0: "sorted_wrt (<) X0" "X0 \<noteq> []" "hd X0 = 0" "\<forall>x\<in>set X0. x \<le> L" "L \<in> set X0"
    using conic_sorted[of L l w] L_in_conic[of L l w] by (simp_all add: X0_def)
  have rXp: "sorted_wrt (<) rX" "\<forall>x\<in>set rX. x \<le> Ln" "Ln \<in> set rX"
    using rasterLoop_props[OF order_refl X0_def nrm_def X0(2,3)] by (simp_all add: rX_def Ln_def)
  have rYp: "sorted_wrt (<) rY" "\<forall>x\<in>set rY. x \<le> Wn" "Wn \<in> set rY"
    using rasterLoop_props[OF assms(1) X0_def nrm_def X0(2,3)] by (simp_all add: rY_def Wn_def)
  have LnL: "Ln = L" using normalize_L[of L l w] by (simp add: Ln_def nrm_def X0_def)
  have WnW: "Wn \<le> W" using normalize_le[OF assms(1), of l w] by (simp add: Wn_def nrm_def X0_def)
  have wl: "Wn \<le> Ln" using LnL WnW assms(1) by simp
  have mp: "sorted_wrt (<) pts" "set pts = set rX \<union> set rY \<union> {Ln + 1}"
    using mergedPoints_spec[OF rXp(1) rYp(1) rXp(2) rYp(2) rXp(3) rYp(3) wl] by (simp_all add: pts_def)
  have lastX0: "last X0 = L"
    using strict_sorted_le_last[OF X0(1) X0(5)] X0(2,4) last_in_set[of X0] by (simp add: le_antisym)
  have r: "rev X0 = L # rev (butlast X0)"
    using X0(2) lastX0 by (metis append_butlast_last_id rev_append rev_singleton_conv append_Cons append_Nil)
  have dw: "dropWhile (\<lambda>p. L < p) (L # rev (butlast X0)) = L # rev (butlast X0)" by simp
  have tr: "rev (trimAbove L X0) = L # rev (butlast X0)"
    by (simp only: trimAbove_def rev_rev_ident r dw)
  have n0: "nrm ! 0 = 0" using normalize_le[of 0 L l w] by (simp add: nrm_def X0_def)
  have "nrm ! (L - L) \<in> set rX"
    unfolding rX_def rasterLoop_def tr by (rule rasterFold_first)
  then have "0 \<in> set pts" using n0 mp(2) by simp
  then have "hd pts = 0" "pts \<noteq> []" using strict_sorted_hd_zero[OF mp(1)] by auto
  moreover have "normalSetX (initialize N L W l w) = pts"
    by (simp add: initialize_def Let_def split_beta constructRasterPoints_def
          X0_def nrm_def Ln_def Wn_def rX_def rY_def pts_def)
  ultimately show ?thesis using mp(1) by simp
qed

text \<open>The array \<open>raster\<close> of \<open>makeIndices (L_n, W_n)\<close> is strictly increasing and ends with the
  sentinel \<open>L_n + 1\<close>.\<close>

lemma indexedPoints_sorted:
  assumes "W \<le> L" and "solve_BD L W l w N_max = Some (n, g)"
  shows "sorted_wrt (<) (indexedPoints g (normalize g ! L) (normalize g ! W)) \<and>
         normalize g ! L + 1 \<in> set (indexedPoints g (normalize g ! L) (normalize g ! W)) \<and>
         normalize g ! W \<le> normalize g ! L"
proof -
  define N where "N = (if N_max \<le> 0 then INFINITY_C else N_max)"
  have t: "normalize g = normalize (initialize N L W l w)"
      "normalSetX g = normalSetX (initialize N L W l w)"
    using solve_BD_tables[OF assms N_def] by simp_all
  define X0 where "X0 = constructConicCombinations L l w"
  define nrm where "nrm = buildNormalize L X0"
  define Ln where "Ln = nrm ! L"
  define Wn where "Wn = nrm ! W"
  define pts where "pts = normalSetX g"
  have nrm: "normalize g = nrm" using t(1) by (simp add: initialize_fields nrm_def X0_def)
  have pp: "pts \<noteq> []" "hd pts = 0" using initialize_points[OF assms(1), of N l w] t(2) by (simp_all add: pts_def)
  have X0: "sorted_wrt (<) X0" "X0 \<noteq> []" "hd X0 = 0"
    using conic_sorted[of L l w] by (simp_all add: X0_def)
  have LnL: "Ln = L" using normalize_L[of L l w] by (simp add: Ln_def nrm_def X0_def)
  have WnW: "Wn \<le> W" using normalize_le[OF assms(1), of l w] by (simp add: Wn_def nrm_def X0_def)
  have wl: "Wn \<le> Ln" using LnL WnW assms(1) by simp
  have WnL: "Wn \<le> L" using wl LnL by simp
  have "normInv X0 W Wn" using buildNormalize_spec[OF X0 assms(1)] by (simp add: Wn_def nrm_def)
  then have WnX: "Wn \<in> set X0" by (simp add: normInv_def)
  have "normInv X0 Wn (nrm ! Wn)" using buildNormalize_spec[OF X0 WnL] by (simp add: nrm_def)
  then have nW: "nrm ! Wn = Wn" using WnX by (auto simp: normInv_def intro: le_antisym)
  have nL: "nrm ! Ln = Ln" using LnL by (simp add: Ln_def)
  have LL: "Ln \<le> L" using LnL by simp
  define rX where "rX = rasterLoop nrm Ln pts"
  define rY where "rY = rasterLoop nrm Wn pts"
  have rXp: "sorted_wrt (<) rX" "\<forall>x\<in>set rX. x \<le> Ln" "Ln \<in> set rX"
    using rasterLoop_props[OF LL X0_def nrm_def pp] nL by (simp_all add: rX_def)
  have rYp: "sorted_wrt (<) rY" "\<forall>x\<in>set rY. x \<le> Wn" "Wn \<in> set rY"
    using rasterLoop_props[OF WnL X0_def nrm_def pp] nW by (simp_all add: rY_def)
  have mp: "sorted_wrt (<) (mergedPoints Ln Wn rX rY)"
     "set (mergedPoints Ln Wn rX rY) = set rX \<union> set rY \<union> {Ln + 1}"
    using mergedPoints_spec[OF rXp(1) rYp(1) rXp(2) rYp(2) rXp(3) rYp(3) wl] by simp_all
  have "indexedPoints g (normalize g ! L) (normalize g ! W) = mergedPoints Ln Wn rX rY"
    by (simp add: indexedPoints_def constructRasterPoints_def nrm Ln_def Wn_def rX_def rY_def pts_def)
  then show ?thesis using mp wl by (simp add: nrm Ln_def Wn_def)
qed

text \<open>The loop of \<open>makeIndices\<close> that fills \<open>indexRasterX\<close> (or \<open>indexRasterY\<close>), after the
  iterations \<open>i = 0, ..., n - 1\<close>.\<close>

lemma indexFold_inv:
  assumes "sorted_wrt (<) raster" and "\<exists>x\<in>set raster. B < x" and "n \<le> Suc B"
  shows "\<exists>j ix. fold (indexStep raster) [0..<n] (0, 0, []) = (j, j, ix) \<and> j \<le> length raster \<and>
         (\<forall>k<j. raster ! k < n) \<and> (\<forall>k. j \<le> k \<and> k < length raster \<longrightarrow> n \<le> raster ! k) \<and>
         length ix = n \<and> (\<forall>k<j. ix ! (raster ! k) = k)"
  using assms(3)
proof (induction n)
  case 0
  then show ?case by simp
next
  case (Suc n)
  then obtain j ix where ih: "fold (indexStep raster) [0..<n] (0, 0, []) = (j, j, ix)"
      "j \<le> length raster" "\<forall>k<j. raster ! k < n"
      "\<forall>k. j \<le> k \<and> k < length raster \<longrightarrow> n \<le> raster ! k"
      "length ix = n" "\<forall>k<j. ix ! (raster ! k) = k"
    by auto
  obtain m where m: "m < length raster" "B < raster ! m"
    using assms(2) by (auto simp: in_set_conv_nth)
  have "\<not> m < j" using ih(3) m(2) Suc.prems by fastforce
  then have jl: "j < length raster" using m(1) by simp
  have ge: "n \<le> raster ! j" using ih(4) jl by simp
  have st: "fold (indexStep raster) [0..<Suc n] (0, 0, []) = indexStep raster n (j, j, ix)"
    using ih(1) by simp
  show ?case
  proof (cases "raster ! j = n")
    case True
    have a: "indexStep raster n (j, j, ix) = (Suc j, Suc j, ix @ [j])"
      using True by (simp add: indexStep_def)
    have b: "\<forall>k<Suc j. raster ! k < Suc n" using ih(3) True by (auto simp: less_Suc_eq)
    have c: "\<forall>k. Suc j \<le> k \<and> k < length raster \<longrightarrow> Suc n \<le> raster ! k"
    proof (intro allI impI)
      fix k assume k: "Suc j \<le> k \<and> k < length raster"
      then have "raster ! j < raster ! k" using assms(1) by (simp add: sorted_wrt_iff_nth_less)
      then show "Suc n \<le> raster ! k" using True by simp
    qed
    have d: "\<forall>k<Suc j. (ix @ [j]) ! (raster ! k) = k"
    proof (intro allI impI)
      fix k assume k: "k < Suc j"
      show "(ix @ [j]) ! (raster ! k) = k"
      proof (cases "k = j")
        case True
        then show ?thesis using \<open>raster ! j = n\<close> ih(5) by (simp add: nth_append)
      next
        case False
        then have "k < j" using k by simp
        then show ?thesis using ih(3,5,6) by (simp add: nth_append)
      qed
    qed
    show ?thesis unfolding st a using b c d ih(5) jl by simp
  next
    case False
    then have gt: "n < raster ! j" using ge by simp
    have a: "indexStep raster n (j, j, ix) = (j, j, ix @ [ix ! (n - 1)])"
      using False by (simp add: indexStep_def)
    have b: "\<forall>k<j. raster ! k < Suc n" using ih(3) by (auto simp: less_Suc_eq)
    have c: "\<forall>k. j \<le> k \<and> k < length raster \<longrightarrow> Suc n \<le> raster ! k"
    proof (intro allI impI)
      fix k assume k: "j \<le> k \<and> k < length raster"
      show "Suc n \<le> raster ! k"
      proof (cases "k = j")
        case True
        then show ?thesis using gt by simp
      next
        case False
        then have "raster ! j < raster ! k" using assms(1) k by (simp add: sorted_wrt_iff_nth_less)
        then show ?thesis using gt by simp
      qed
    qed
    have d: "\<forall>k<j. (ix @ [ix ! (n - 1)]) ! (raster ! k) = k"
      using ih(3,5,6) by (simp add: nth_append)
    show ?thesis unfolding st a using b c d ih(2,5) by simp
  qed
qed

text \<open>Every raster point up to the bound gets its position in \<open>raster\<close> as index, and the
  positions are below the count.\<close>

lemma indexRaster_spec:
  assumes "sorted_wrt (<) raster" and "\<exists>x\<in>set raster. B < x"
    and "p \<in> set raster" and "p \<le> B"
  shows "\<exists>k. k < length raster \<and> raster ! k = p \<and> fst (indexRaster raster B) ! p = k \<and>
           k < snd (indexRaster raster B)"
proof -
  obtain j ix where f: "fold (indexStep raster) [0..<Suc B] (0, 0, []) = (j, j, ix)"
      "j \<le> length raster" "\<forall>k<j. raster ! k < Suc B"
      "\<forall>k. j \<le> k \<and> k < length raster \<longrightarrow> Suc B \<le> raster ! k"
      "length ix = Suc B" "\<forall>k<j. ix ! (raster ! k) = k"
    using indexFold_inv[OF assms(1,2) order_refl] by blast
  obtain k where k: "k < length raster" "raster ! k = p"
    using assms(3) by (auto simp: in_set_conv_nth)
  have kj: "k < j" using f(4) k assms(4) by (metis not_less_eq_eq not_le_imp_less)
  have ir: "indexRaster raster B = (ix @ [ix ! B + 1], j)"
    unfolding indexRaster_def f(1) by simp
  have "(ix @ [ix ! B + 1]) ! p = k" using f(5,6) kj k(2) assms(4) by (auto simp: nth_append)
  then show ?thesis using k kj ir by simp
qed

lemma radix_inj:
  "a < n \<Longrightarrow> b < n \<Longrightarrow> x * n + a = y * n + (b::nat) \<Longrightarrow> x = y \<and> a = b"
proof -
  assume a: "a < n" and b: "b < n" and e: "x * n + a = y * n + b"
  have "(x * n + a) div n = x" "(y * n + b) div n = y" using a b by simp_all
  then have "x = y" using e by simp
  then show ?thesis using e by simp
qed


lemma radix_bound: "a < n \<Longrightarrow> x < m \<Longrightarrow> x * n + a < m * (n::nat)"
proof -
  assume a: "a < n" and x: "x < m"
  have "Suc x * n \<le> m * n" using x by (intro mult_le_mono1) simp
  then show ?thesis using a by simp
qed

text \<open>The index arrays that \<open>makeIndices\<close> stores.\<close>

lemma makeIndices_fields:
  "indexRasterX (makeIndices g l w t L W) = fst (indexRaster (indexedPoints g L W) L)"
  "numRasterX (makeIndices g l w t L W) = snd (indexRaster (indexedPoints g L W) L)"
  "indexRasterY (makeIndices g l w t L W) = fst (indexRaster (indexedPoints g L W) W)"
  "numRasterY (makeIndices g l w t L W) = snd (indexRaster (indexedPoints g L W) W)"
  "memory_type (makeIndices g l w t L W) = t"
  "length (solution (makeIndices g l w 4 L W)) =
     (snd (indexRaster (indexedPoints g L W) L))\<^sup>2 * (snd (indexRaster (indexedPoints g L W) W))\<^sup>2"
  by (simp_all add: makeIndices_def Let_def split_beta)

text \<open>
  C10.  Let \<open>makeIndices\<close> run on the normalized pallet after \<open>solve_BD\<close>, with the dense
  arrays of memory type 4, and let \<open>raster\<close> be the merged array of raster points that it
  indexes.  If all components of two L-pieces are points of \<open>raster\<close> (the \<open>x\<close>-components
  \<open>q0, q2\<close> at most \<open>L_n\<close>, the \<open>y\<close>-components \<open>q1, q3\<close> at most \<open>W_n\<close>) and the pieces
  differ, then \<open>LIndex\<close> maps them to different cells, and the cells lie inside the array
  \<open>solution\<close>.  (The arithmetic of \<open>LIndex\<close> is that of unbounded naturals here:
  \<open>allocateMemory\<close> only chooses memory type 4 when the array size fits an \<open>int\<close>.)
\<close>

theorem C10_LIndex_injective:
  assumes "W \<le> L" and "solve_BD L W l w N_max = Some (n, g)"
    and s_def: "s = makeIndices g l w 4 (normalize g ! L) (normalize g ! W)"
    and raster_def: "raster = indexedPoints g (normalize g ! L) (normalize g ! W)"
    and xs: "{q0, q2, q0', q2'} \<subseteq> {p \<in> set raster. p \<le> normalize g ! L}"
    and ys: "{q1, q3, q1', q3'} \<subseteq> {p \<in> set raster. p \<le> normalize g ! W}"
    and ne: "(q0, q1, q2, q3) \<noteq> (q0', q1', q2', q3')"
  shows "LIndex s (q0, q1, q2, q3) \<noteq> LIndex s (q0', q1', q2', q3') \<and>
         LIndex s (q0, q1, q2, q3) < length (solution s) \<and>
         LIndex s (q0', q1', q2', q3') < length (solution s)"
proof -
  define Ln where "Ln = normalize g ! L"
  define Wn where "Wn = normalize g ! W"
  define iX where "iX = fst (indexRaster raster Ln)"
  define nX where "nX = snd (indexRaster raster Ln)"
  define iY where "iY = fst (indexRaster raster Wn)"
  define nY where "nY = snd (indexRaster raster Wn)"
  have r: "sorted_wrt (<) raster" "Ln + 1 \<in> set raster" "Wn \<le> Ln"
    using indexedPoints_sorted[OF assms(1,2)] by (simp_all add: raster_def Ln_def Wn_def)
  have sx: "\<exists>x\<in>set raster. Ln < x" using r(2) by (intro bexI[of _ "Ln + 1"]) simp_all
  have sy: "\<exists>x\<in>set raster. Wn < x" using r(2,3) by (intro bexI[of _ "Ln + 1"]) simp_all
  have X: "\<And>p. p \<in> set raster \<Longrightarrow> p \<le> Ln \<Longrightarrow> raster ! (iX ! p) = p \<and> iX ! p < nX"
    using indexRaster_spec[OF r(1) sx] unfolding iX_def nX_def by blast
  have Y: "\<And>p. p \<in> set raster \<Longrightarrow> p \<le> Wn \<Longrightarrow> raster ! (iY ! p) = p \<and> iY ! p < nY"
    using indexRaster_spec[OF r(1) sy] unfolding iY_def nY_def by blast
  have x: "raster ! (iX ! q0) = q0" "iX ! q0 < nX" "raster ! (iX ! q2) = q2" "iX ! q2 < nX"
      "raster ! (iX ! q0') = q0'" "iX ! q0' < nX" "raster ! (iX ! q2') = q2'" "iX ! q2' < nX"
    using xs X unfolding Ln_def[symmetric] by simp_all
  have y: "raster ! (iY ! q1) = q1" "iY ! q1 < nY" "raster ! (iY ! q3) = q3" "iY ! q3 < nY"
      "raster ! (iY ! q1') = q1'" "iY ! q1' < nY" "raster ! (iY ! q3') = q3'" "iY ! q3' < nY"
    using ys Y unfolding Wn_def[symmetric] by simp_all
  have f: "indexRasterX s = iX" "numRasterX s = nX" "indexRasterY s = iY" "numRasterY s = nY"
      "memory_type s = 4" "length (solution s) = nX\<^sup>2 * nY\<^sup>2"
    unfolding s_def iX_def nX_def iY_def nY_def raster_def Ln_def Wn_def
    by (simp_all only: makeIndices_fields)
  have li: "\<And>a b c d. LIndex s (a, b, c, d) = ((iX ! a * nY + iY ! b) * nX + iX ! c) * nY + iY ! d"
    by (simp add: LIndex_def f)
  have bound: "\<And>a b c d. a < nX \<Longrightarrow> b < nY \<Longrightarrow> c < nX \<Longrightarrow> d < nY \<Longrightarrow>
      ((a * nY + b) * nX + c) * nY + d < nX\<^sup>2 * nY\<^sup>2"
  proof -
    fix a b c d assume a: "a < nX" and b: "b < nY" and c: "c < nX" and d: "d < nY"
    have 1: "a * nY + b < nX * nY" using radix_bound[OF b a] .
    have 2: "(a * nY + b) * nX + c < nX * nY * nX" using radix_bound[OF c 1] .
    have 3: "((a * nY + b) * nX + c) * nY + d < nX * nY * nX * nY" using radix_bound[OF d 2] .
    have "nX * nY * nX * nY = nX\<^sup>2 * nY\<^sup>2" by (simp add: power2_eq_square)
    then show "((a * nY + b) * nX + c) * nY + d < nX\<^sup>2 * nY\<^sup>2" using 3 by simp
  qed
  have neq: "LIndex s (q0, q1, q2, q3) \<noteq> LIndex s (q0', q1', q2', q3')"
  proof
    assume "LIndex s (q0, q1, q2, q3) = LIndex s (q0', q1', q2', q3')"
    then have e: "((iX ! q0 * nY + iY ! q1) * nX + iX ! q2) * nY + iY ! q3
        = ((iX ! q0' * nY + iY ! q1') * nX + iX ! q2') * nY + iY ! q3'"
      by (simp only: li)
    have 3: "(iX ! q0 * nY + iY ! q1) * nX + iX ! q2 = (iX ! q0' * nY + iY ! q1') * nX + iX ! q2'"
        "iY ! q3 = iY ! q3'"
      using radix_inj[OF y(4) y(8) e] by simp_all
    have 2: "iX ! q0 * nY + iY ! q1 = iX ! q0' * nY + iY ! q1'" "iX ! q2 = iX ! q2'"
      using radix_inj[OF x(4) x(8) 3(1)] by simp_all
    have 1: "iX ! q0 = iX ! q0'" "iY ! q1 = iY ! q1'"
      using radix_inj[OF y(2) y(6) 2(1)] by simp_all
    have "q0 = q0'" using x(1,5) 1(1) by metis
    moreover have "q1 = q1'" using y(1,5) 1(2) by metis
    moreover have "q2 = q2'" using x(3,7) 2(2) by metis
    moreover have "q3 = q3'" using y(3,7) 3(2) by metis
    ultimately show False using ne by simp
  qed
  have "LIndex s (q0, q1, q2, q3) < length (solution s)"
    unfolding li f(6) using bound[OF x(2) y(2) x(4) y(4)] .
  moreover have "LIndex s (q0', q1', q2', q3') < length (solution s)"
    unfolding li f(6) using bound[OF x(6) y(6) x(8) y(8)] .
  ultimately show ?thesis using neq by simp
qed

lemma raster_13_7_5_3:
  "normalize (initialize INFINITY_C 13 7 5 3) ! 13 = 13"
  "normalize (initialize INFINITY_C 13 7 5 3) ! 7 = 6"
  "indexedPoints (initialize INFINITY_C 13 7 5 3) 13 6 = [0, 3, 5, 6, 8, 10, 13, 14]"
  by code_simp+

theorem C10_LIndex_injective_witness:
  "\<exists>n g. solve_BD 13 7 5 3 0 = Some (n, g) \<and>
     set (indexedPoints g (normalize g ! 13) (normalize g ! 7)) = {0, 3, 5, 6, 8, 10, 13, 14} \<and>
     LIndex (makeIndices g 5 3 4 (normalize g ! 13) (normalize g ! 7)) (13, 6, 5, 3)
       \<noteq> LIndex (makeIndices g 5 3 4 (normalize g ! 13) (normalize g ! 7)) (13, 6, 3, 5)"
proof -
  obtain n g where b: "solve_BD 13 7 5 3 0 = Some (n, g)"
    using solve_BD_result[of 13 7 5 3 0] by blast
  have le: "(7::nat) \<le> 13" by simp
  have t: "normalize g = normalize (initialize INFINITY_C 13 7 5 3)"
      "normalSetX g = normalSetX (initialize INFINITY_C 13 7 5 3)"
    using solve_BD_tables[OF le b, of INFINITY_C] by simp_all
  have nn: "normalize g ! 13 = 13" "normalize g ! 7 = 6"
    using raster_13_7_5_3(1,2) by (simp_all add: t(1))
  have "indexedPoints g 13 6 = indexedPoints (initialize INFINITY_C 13 7 5 3) 13 6"
    by (simp add: indexedPoints_def t)
  then have ras6: "indexedPoints g 13 6 = [0, 3, 5, 6, 8, 10, 13, 14]"
    using raster_13_7_5_3(3) by simp
  then have ras: "indexedPoints g (normalize g ! 13) (normalize g ! 7) = [0, 3, 5, 6, 8, 10, 13, 14]"
    by (simp add: nn)
  have "LIndex (makeIndices g 5 3 4 (normalize g ! 13) (normalize g ! 7)) (13, 6, 5, 3)
       \<noteq> LIndex (makeIndices g 5 3 4 (normalize g ! 13) (normalize g ! 7)) (13, 6, 3, 5)"
    using C10_LIndex_injective[OF le b refl refl, of 13 5 13 3 6 3 6 5]
    by (simp add: ras6 nn)
  then show ?thesis using b ras by simp
qed


section \<open>The conic combinations\<close>

text \<open>The array after \<open>for (i = d; i < n; i++) if (c[i] < c[i - d] + d) c[i] = c[i - d] + d\<close>.\<close>

lemma conicFold:
  assumes "length c0 = N" and "n \<le> N" and "0 < d"
  shows "length (fold (conicStep d) [d..<n] c0) = N \<and>
         (\<forall>i<N. fold (conicStep d) [d..<n] c0 ! i =
            (if d \<le> i \<and> i < n then max (c0 ! i) (fold (conicStep d) [d..<n] c0 ! (i - d) + d)
             else c0 ! i))"
  using assms(2)
proof (induction n)
  case 0
  then show ?case using assms(1) by simp
next
  case (Suc n)
  let ?c = "fold (conicStep d) [d..<n] c0"
  have ih: "length ?c = N" "\<forall>i<N. ?c ! i =
            (if d \<le> i \<and> i < n then max (c0 ! i) (?c ! (i - d) + d) else c0 ! i)"
    using Suc by simp_all
  show ?case
  proof (cases "d \<le> n")
    case False
    then have "[d..<Suc n] = []" "[d..<n] = []" by simp_all
    then show ?thesis using assms(1) False by simp
  next
    case True
    let ?c' = "conicStep d n ?c"
    have f: "fold (conicStep d) [d..<Suc n] c0 = ?c'" using True by simp
    have nN: "n < N" using Suc.prems by simp
    have len: "length ?c' = N" using ih(1) by (simp add: conicStep_def)
    have other: "\<And>i. i \<noteq> n \<Longrightarrow> ?c' ! i = ?c ! i" by (simp add: conicStep_def)
    have cn: "?c ! n = c0 ! n" using ih(2) nN by simp
    have atn: "?c' ! n = max (c0 ! n) (?c ! (n - d) + d)"
      using cn nN ih(1) by (simp add: conicStep_def max_def)
    have "\<forall>i<N. ?c' ! i = (if d \<le> i \<and> i < Suc n then max (c0 ! i) (?c' ! (i - d) + d) else c0 ! i)"
    proof (intro allI impI)
      fix i assume iN: "i < N"
      show "?c' ! i = (if d \<le> i \<and> i < Suc n then max (c0 ! i) (?c' ! (i - d) + d) else c0 ! i)"
      proof (cases "i = n")
        case True
        have "n - d \<noteq> n" using assms(3) \<open>d \<le> n\<close> by simp
        then show ?thesis using atn other[of "n - d"] True \<open>d \<le> n\<close> by simp
      next
        case False
        have "d \<le> i \<Longrightarrow> i < n \<Longrightarrow> i - d \<noteq> n" by simp
        then have "d \<le> i \<Longrightarrow> i < n \<Longrightarrow> ?c' ! (i - d) = ?c ! (i - d)" using other by blast
        moreover have "?c ! i = (if d \<le> i \<and> i < n then max (c0 ! i) (?c ! (i - d) + d) else c0 ! i)"
          using ih(2) iN by blast
        moreover have "?c' ! i = ?c ! i" using other[OF False] .
        ultimately show ?thesis using False by (simp only: less_Suc_eq) auto
      qed
    qed
    then show ?thesis unfolding f using len by simp
  qed
qed

text \<open>After the first loop \<open>c[i]\<close> is the largest multiple of \<open>l\<close> up to \<open>i\<close>.\<close>

lemma conic_first_loop:
  assumes "0 < l" and "i \<le> L"
  shows "fold (conicStep l) [l..<Suc L] (replicate (L + 2) 0) ! i = (i div l) * l"
  using assms(2)
proof (induction i rule: less_induct)
  case (less i)
  let ?c = "fold (conicStep l) [l..<Suc L] (replicate (L + 2) 0)"
  have r: "\<forall>i<L + 2. ?c ! i = (if l \<le> i \<and> i < Suc L then max (replicate (L + 2) 0 ! i) (?c ! (i - l) + l)
             else replicate (L + 2) 0 ! i)"
    using conicFold[of "replicate (L + 2) 0" "L + 2" "Suc L" l] assms(1) by simp
  have z: "replicate (L + 2) (0::nat) ! i = 0" using less.prems nth_replicate[of i "L + 2" "0::nat"] by linarith
  show ?case
  proof (cases "l \<le> i")
    case True
    have "?c ! (i - l) = ((i - l) div l) * l" using less.IH[of "i - l"] True assms(1) less.prems by simp
    moreover have "?c ! i = max 0 (?c ! (i - l) + l)"
      using r[rule_format, of i] True less.prems z by simp
    ultimately have "?c ! i = ((i - l) div l) * l + l" by simp
    also have "\<dots> = (i div l) * l" using True assms(1) by (simp add: le_div_geq)
    finally show ?thesis .
  next
    case False
    then have "?c ! i = 0" using r[rule_format, of i] less.prems z by simp
    then show ?thesis using False by simp
  qed
qed

lemma conic_add: "conic l w x \<Longrightarrow> conic l w y \<Longrightarrow> conic l w (x + y)"
proof -
  assume "conic l w x" "conic l w y"
  then obtain a b a' b' where "x = a * l + b * w" "y = a' * l + b' * w" by (auto simp: conic_def)
  then have "x + y = (a + a') * l + (b + b') * w" by (simp add: algebra_simps)
  then show ?thesis unfolding conic_def by blast
qed

lemma conic_zero: "conic l w 0"
  unfolding conic_def by (rule exI[of _ 0], rule exI[of _ 0]) simp

text \<open>After the second loop \<open>c[i]\<close> is the largest conic combination up to \<open>i\<close>.\<close>

lemma conic_second_loop:
  assumes "0 < l" and "0 < w" and "i \<le> L"
    and c2_def: "c2 = fold (conicStep w) [w..<Suc L] (fold (conicStep l) [l..<Suc L] (replicate (L + 2) 0))"
  shows "conic l w (c2 ! i) \<and> c2 ! i \<le> i \<and> (\<forall>j\<le>i. conic l w j \<longrightarrow> j \<le> c2 ! i)"
  using assms(3)
proof (induction i rule: less_induct)
  case (less i)
  let ?c1 = "fold (conicStep l) [l..<Suc L] (replicate (L + 2) 0)"
  have len1: "length ?c1 = L + 2"
    using conicFold[of "replicate (L + 2) 0" "L + 2" "Suc L" l] assms(1) by simp
  have r: "\<forall>i<L + 2. c2 ! i = (if w \<le> i \<and> i < Suc L then max (?c1 ! i) (c2 ! (i - w) + w) else ?c1 ! i)"
    unfolding c2_def using conicFold[OF len1, of "Suc L" w] assms(2) by simp
  have c1: "?c1 ! i = (i div l) * l" using conic_first_loop[OF assms(1) less.prems] .
  have c1c: "conic l w ((i div l) * l)" unfolding conic_def by (rule exI[of _ "i div l"], rule exI[of _ 0]) simp
  have c1le: "(i div l) * l \<le> i" by simp
  have mult: "\<And>a. a * l \<le> i \<Longrightarrow> a * l \<le> (i div l) * l"
  proof -
    fix a assume "a * l \<le> i"
    then have "a \<le> i div l" using assms(1) by (simp add: less_eq_div_iff_mult_less_eq)
    then show "a * l \<le> (i div l) * l" by simp
  qed
  show ?case
  proof (cases "w \<le> i")
    case False
    then have v: "c2 ! i = (i div l) * l" using r[rule_format, of i] less.prems c1 by simp
    have "\<forall>j\<le>i. conic l w j \<longrightarrow> j \<le> (i div l) * l"
    proof (intro allI impI)
      fix j assume j: "j \<le> i" "conic l w j"
      then obtain a b where ab: "j = a * l + b * w" by (auto simp: conic_def)
      have "b = 0"
      proof (rule ccontr)
        assume "b \<noteq> 0"
        then obtain b' where "b = Suc b'" by (cases b) auto
        then have "j = a * l + b' * w + w" using ab by simp
        then have "w \<le> j" by simp
        then show False using j(1) False by simp
      qed
      then show "j \<le> (i div l) * l" using ab j(1) mult[of a] by simp
    qed
    then show ?thesis using v c1c c1le by simp
  next
    case True
    have ih: "conic l w (c2 ! (i - w))" "c2 ! (i - w) \<le> i - w"
        "\<forall>j\<le>i - w. conic l w j \<longrightarrow> j \<le> c2 ! (i - w)"
      using less.IH[of "i - w"] True assms(2) less.prems by simp_all
    have v: "c2 ! i = max ((i div l) * l) (c2 ! (i - w) + w)"
      using r[rule_format, of i] True less.prems c1 by simp
    have cw: "conic l w w" unfolding conic_def by (rule exI[of _ 0], rule exI[of _ 1]) simp
    have a1: "conic l w (c2 ! i)" unfolding v using c1c conic_add[OF ih(1) cw] by (simp add: max_def)
    have a2: "c2 ! i \<le> i" unfolding v using c1le ih(2) True by simp
    have "\<forall>j\<le>i. conic l w j \<longrightarrow> j \<le> c2 ! i"
    proof (intro allI impI)
      fix j assume j: "j \<le> i" "conic l w j"
      then obtain a b where ab: "j = a * l + b * w" by (auto simp: conic_def)
      show "j \<le> c2 ! i"
      proof (cases b)
        case 0
        then have "a * l \<le> i" using ab j(1) by simp
        then have "a * l \<le> (i div l) * l" by (rule mult)
        moreover have "(i div l) * l \<le> c2 ! i" unfolding v by (rule max.cobounded1)
        moreover have "j = a * l" using ab 0 by simp
        ultimately show ?thesis by (simp only: order_trans)
      next
        case (Suc b')
        then have e: "j = (a * l + b' * w) + w" using ab by simp
        have "conic l w (a * l + b' * w)" unfolding conic_def by blast
        moreover have "a * l + b' * w \<le> i - w" using e j(1) by simp
        ultimately have "a * l + b' * w \<le> c2 ! (i - w)" using ih(3) by blast
        then show ?thesis using e v by simp
      qed
    qed
    then show ?thesis using a1 a2 by simp
  qed
qed

lemma conic_fixed_point:
  assumes "0 < l" and "0 < w" and "i \<le> L"
    and c2_def: "c2 = fold (conicStep w) [w..<Suc L] (fold (conicStep l) [l..<Suc L] (replicate (L + 2) 0))"
  shows "c2 ! i = i \<longleftrightarrow> conic l w i"
  using conic_second_loop[OF assms] by (metis le_antisym order_refl)

text \<open>The points collected by the third loop.\<close>

lemma collect_set:
  "fold (collectStep c) [1..<Suc n] ([0], (replicate (L + 2) 0)[0 := 1]) = (X, inX) \<Longrightarrow> n \<le> L \<Longrightarrow>
   set X = {i. i \<le> n \<and> (i = 0 \<or> c ! i = i)}"
proof (induction n arbitrary: X inX)
  case 0
  then show ?case by auto
next
  case (Suc n)
  obtain X' inX' where p: "fold (collectStep c) [1..<Suc n] ([0], (replicate (L + 2) 0)[0 := 1]) = (X', inX')"
    by (cases "fold (collectStep c) [1..<Suc n] ([0], (replicate (L + 2) 0)[0 := 1])") auto
  have ih: "set X' = {i. i \<le> n \<and> (i = 0 \<or> c ! i = i)}" using Suc.IH[OF p] Suc.prems by simp
  have inv: "\<forall>k. n < k \<longrightarrow> k < L + 2 \<longrightarrow> inX' ! k = 0" using collect_inv[OF p] Suc.prems by simp
  then have z: "inX' ! Suc n = 0" using Suc.prems by simp
  have st: "collectStep c (Suc n) (X', inX') = (X, inX)" using Suc.prems(1) p by simp
  show ?case
  proof (cases "c ! Suc n = Suc n")
    case True
    then have "X = X' @ [Suc n]" using st z by (auto simp: collectStep_def)
    then show ?thesis using ih True by (auto simp: le_Suc_eq)
  next
    case False
    then have "X = X'" using st by (auto simp: collectStep_def)
    then show ?thesis using ih False by (auto simp: le_Suc_eq)
  qed
qed

text \<open>The set \<open>constructConicCombinations\<close> returns: the conic combinations up to \<open>L\<close>, and \<open>L\<close>.\<close>

lemma conic_set:
  assumes "0 < l" and "0 < w"
  shows "set (constructConicCombinations L l w) = {x. x \<le> L \<and> (conic l w x \<or> x = L)}"
proof -
  define c2 where "c2 = fold (conicStep w) [w..<Suc L] (fold (conicStep l) [l..<Suc L] (replicate (L + 2) 0))"
  obtain X inX where p: "fold (collectStep c2) [1..<Suc L] ([0], (replicate (L + 2) 0)[0 := 1]) = (X, inX)"
    by (cases "fold (collectStep c2) [1..<Suc L] ([0], (replicate (L + 2) 0)[0 := 1])") auto
  have sx: "set X = {i. i \<le> L \<and> (i = 0 \<or> c2 ! i = i)}" using collect_set[OF p] by simp
  have fp: "\<And>i. i \<le> L \<Longrightarrow> c2 ! i = i \<longleftrightarrow> conic l w i"
    using conic_fixed_point[OF assms _ c2_def] by simp
  have sx': "set X = {i. i \<le> L \<and> conic l w i}"
    unfolding sx using fp conic_zero[of l w] by auto
  have ne: "X \<noteq> []" using collect_inv[OF p] by simp
  have eq: "constructConicCombinations L l w = (if last X \<noteq> L then X @ [L] else X)"
    using p by (simp add: constructConicCombinations_def c2_def Let_def)
  show ?thesis
  proof (cases "last X = L")
    case True
    then have "L \<in> set X" using ne last_in_set by metis
    then show ?thesis using eq True sx' by auto
  next
    case False
    then show ?thesis using eq sx' by auto
  qed
qed

text \<open>The set is closed under sums that stay within \<open>L\<close>.\<close>

lemma conic_closed:
  assumes "0 < l" and "0 < w"
    and "a \<in> set (constructConicCombinations L l w)" and "b \<in> set (constructConicCombinations L l w)"
    and "a + b \<le> L"
  shows "a + b \<in> set (constructConicCombinations L l w)"
  using assms(3,4,5) conic_add[of l w a b] unfolding conic_set[OF assms(1,2)] by auto

section \<open>The raster points are closed under the partitions\<close>

lemma conicTable_initialize:
  assumes "0 < l" and "0 < w"
  shows "conicTable L (constructConicCombinations L l w)
           (buildNormalize L (constructConicCombinations L l w))"
proof -
  let ?X = "constructConicCombinations L l w"
  have s: "sorted_wrt (<) ?X" "?X \<noteq> []" "hd ?X = 0" "\<forall>x\<in>set ?X. x \<le> L"
    using conic_sorted[of L l w] by simp_all
  have z: "0 \<in> set ?X" using s(2,3) hd_in_set by fastforce
  have ni: "\<forall>x\<le>L. normInv ?X x (buildNormalize L ?X ! x)"
    using buildNormalize_spec[OF s(1,2,3)] by blast
  have cl: "\<forall>a\<in>set ?X. \<forall>b\<in>set ?X. a + b \<le> L \<longrightarrow> a + b \<in> set ?X"
    using conic_closed[OF assms] by blast
  show ?thesis unfolding conicTable_def using s(1,4) z L_in_conic[of L l w] ni cl by blast
qed

lemma conicTable_nrm:
  assumes "conicTable L X0 nrm" and "x \<le> L"
  shows "nrm ! x \<in> set X0" and "nrm ! x \<le> x" and "\<And>s. s \<in> set X0 \<Longrightarrow> s \<le> x \<Longrightarrow> s \<le> nrm ! x"
  using assms unfolding conicTable_def normInv_def by blast+

lemma conicTable_fixed:
  assumes "conicTable L X0 nrm" and "x \<in> set X0"
  shows "nrm ! x = x"
proof -
  have xl: "x \<le> L" using assms unfolding conicTable_def by blast
  show ?thesis using conicTable_nrm(2)[OF assms(1) xl] conicTable_nrm(3)[OF assms(1) xl assms(2)]
    by simp
qed

lemma conicTable_mono:
  assumes "conicTable L X0 nrm" and "x \<le> y" and "y \<le> L"
  shows "nrm ! x \<le> nrm ! y"
proof -
  have xl: "x \<le> L" using assms by simp
  have "nrm ! x \<le> y" using conicTable_nrm(2)[OF assms(1) xl] assms(2) by simp
  then show ?thesis using conicTable_nrm(3)[OF assms(1,3) conicTable_nrm(1)[OF assms(1) xl]] by simp
qed

lemma rasterSet_props:
  assumes "conicTable L X0 nrm" and "V \<le> L" and "r \<in> rasterSet nrm X0 V"
  shows "r \<in> set X0" and "r \<le> nrm ! V" and "r \<le> V" and "nrm ! r = r"
proof -
  obtain c where c: "c \<in> set X0" "c \<le> V" "r = nrm ! (V - c)"
    using assms(3) unfolding rasterSet_def by blast
  have vl: "V - c \<le> L" using assms(2) by simp
  show x: "r \<in> set X0" unfolding c(3) using conicTable_nrm(1)[OF assms(1) vl] .
  show "r \<le> nrm ! V" unfolding c(3) using conicTable_mono[OF assms(1) _ assms(2), of "V - c"] by simp
  show "r \<le> V" unfolding c(3) using conicTable_nrm(2)[OF assms(1) vl] by simp
  show "nrm ! r = r" using conicTable_fixed[OF assms(1) x] .
qed

lemma rasterSet_top:
  assumes "conicTable L X0 nrm" and "V \<le> L"
  shows "nrm ! V \<in> rasterSet nrm X0 V"
proof -
  have "0 \<in> {c \<in> set X0. c \<le> V}" using assms(1) unfolding conicTable_def by simp
  then have "nrm ! (V - 0) \<in> rasterSet nrm X0 V" unfolding rasterSet_def by (rule imageI)
  then show ?thesis by simp
qed

lemma rasterSet_rest:
  assumes "x \<in> set X0" and "x \<le> V"
  shows "nrm ! (V - x) \<in> rasterSet nrm X0 V"
  using assms unfolding rasterSet_def by blast

text \<open>The difference of a raster point and a conic combination normalizes to a raster
  point.\<close>

lemma rasterSet_closure:
  assumes T: "conicTable L X0 nrm" and V: "V \<le> L" and r: "r \<in> rasterSet nrm X0 V"
    and p: "p \<in> set X0" "p \<le> r"
  shows "nrm ! (r - p) \<in> rasterSet nrm X0 V"
proof -
  obtain c where c: "c \<in> set X0" "c \<le> V" "r = nrm ! (V - c)"
    using r unfolding rasterSet_def by blast
  have cl: "\<And>a b. a \<in> set X0 \<Longrightarrow> b \<in> set X0 \<Longrightarrow> a + b \<le> L \<Longrightarrow> a + b \<in> set X0"
    using T unfolding conicTable_def by blast
  have rV: "r \<le> V - c" unfolding c(3) using conicTable_nrm(2)[OF T, of "V - c"] V by simp
  define t where "t = nrm ! (r - p)"
  have rp: "r - p \<le> L" using rV V by simp
  have t: "t \<in> set X0" "t \<le> r - p" unfolding t_def using conicTable_nrm(1,2)[OF T rp] by simp_all
  have tV: "t \<le> V" using t(2) rV by simp
  define c' where "c' = nrm ! (V - t)"
  have vt: "V - t \<le> L" using V by simp
  have c': "c' \<in> set X0" "c' \<le> V - t" unfolding c'_def using conicTable_nrm(1,2)[OF T vt] by simp_all
  have c'V: "c' \<le> V" using c'(2) by simp
  define s where "s = nrm ! (V - c')"
  have vc: "V - c' \<le> L" using V by simp
  have s: "s \<in> set X0" "s \<le> V - c'" unfolding s_def using conicTable_nrm(1,2)[OF T vc] by simp_all
  have ge: "t \<le> s"
  proof -
    have "t \<le> V - c'" using c'(2) tV by simp
    then show ?thesis unfolding s_def using conicTable_nrm(3)[OF T vc t(1)] by simp
  qed
  have le: "s \<le> t"
  proof -
    have 1: "p + c \<le> V - t" using t(2) rV p(2) c(2) by linarith
    then have "p + c \<le> L" using V by simp
    then have "p + c \<in> set X0" using cl[OF p(1) c(1)] by simp
    then have 2: "p + c \<le> c'" unfolding c'_def using conicTable_nrm(3)[OF T vt] 1 by simp
    have 3: "s + p \<le> V - c" using s(2) 2 c'V by linarith
    then have "s + p \<le> L" using V by simp
    then have "s + p \<in> set X0" using cl[OF s(1) p(1)] by simp
    moreover have "V - c \<le> L" using V by simp
    ultimately have "s + p \<le> r" unfolding c(3) using conicTable_nrm(3)[OF T _ _ 3] by simp
    then have "s \<le> r - p" by simp
    then show ?thesis unfolding t_def using conicTable_nrm(3)[OF T rp s(1)] by simp
  qed
  have "nrm ! (r - p) = nrm ! (V - c')" using ge le unfolding t_def s_def by simp
  then show ?thesis using rasterSet_rest[OF c'(1) c'V, of nrm] by simp
qed

text \<open>The raster points of \<open>W\<close> are those of the normalized \<open>W\<close>.\<close>

lemma rasterSet_normalized:
  assumes T: "conicTable L X0 nrm" and V: "V \<le> L"
  shows "rasterSet nrm X0 (nrm ! V) = rasterSet nrm X0 V"
proof -
  have cl: "\<And>a b. a \<in> set X0 \<Longrightarrow> b \<in> set X0 \<Longrightarrow> a + b \<le> L \<Longrightarrow> a + b \<in> set X0"
    using T unfolding conicTable_def by blast
  have nV: "nrm ! V \<le> V" using conicTable_nrm(2)[OF T V] .
  have same: "\<And>c. c \<in> set X0 \<Longrightarrow> c \<le> V \<Longrightarrow> c \<le> nrm ! V \<and> nrm ! (nrm ! V - c) = nrm ! (V - c)"
  proof -
    fix c assume c: "c \<in> set X0" "c \<le> V"
    have cn: "c \<le> nrm ! V" using conicTable_nrm(3)[OF T V c] .
    have a: "V - c \<le> L" "nrm ! V - c \<le> L" using V nV by simp_all
    have le: "nrm ! (nrm ! V - c) \<le> nrm ! (V - c)"
      using conicTable_mono[OF T _ a(1), of "nrm ! V - c"] nV by simp
    define s where "s = nrm ! (V - c)"
    have s: "s \<in> set X0" "s \<le> V - c" unfolding s_def using conicTable_nrm(1,2)[OF T a(1)] by simp_all
    have "s + c \<le> V" using s(2) c(2) by simp
    moreover have "s + c \<in> set X0" using cl[OF s(1) c(1)] s(2) c(2) V by simp
    ultimately have "s + c \<le> nrm ! V" using conicTable_nrm(3)[OF T V] by simp
    then have "s \<le> nrm ! V - c" by simp
    then have "s \<le> nrm ! (nrm ! V - c)" using conicTable_nrm(3)[OF T a(2) s(1)] by simp
    then show "c \<le> nrm ! V \<and> nrm ! (nrm ! V - c) = nrm ! (V - c)" using le cn unfolding s_def by simp
  qed
  show ?thesis
  proof (intro set_eqI iffI)
    fix r assume "r \<in> rasterSet nrm X0 (nrm ! V)"
    then obtain c where c: "c \<in> set X0" "c \<le> nrm ! V" "r = nrm ! (nrm ! V - c)"
      unfolding rasterSet_def by blast
    have cV: "c \<le> V" using c(2) nV by simp
    show "r \<in> rasterSet nrm X0 V" using same[OF c(1) cV] c(3) rasterSet_rest[OF c(1) cV, of nrm] by simp
  next
    fix r assume "r \<in> rasterSet nrm X0 V"
    then obtain c where c: "c \<in> set X0" "c \<le> V" "r = nrm ! (V - c)"
      unfolding rasterSet_def by blast
    show "r \<in> rasterSet nrm X0 (nrm ! V)"
      using same[OF c(1,2)] c(3) rasterSet_rest[OF c(1), of "nrm ! V" nrm] by simp
  qed
qed

lemma trimAbove_sorted:
  "sorted_wrt (<) (cc :: nat list) \<Longrightarrow>
   sorted_wrt (<) (trimAbove V cc) \<and> set (trimAbove V cc) = {c \<in> set cc. c \<le> V}"
proof (induction cc rule: rev_induct)
  case Nil
  then show ?case by (simp add: trimAbove_def)
next
  case (snoc y ys)
  have s: "sorted_wrt (<) ys" "\<forall>x\<in>set ys. x < y" using snoc.prems by (simp_all add: sorted_wrt_append)
  show ?case
  proof (cases "V < y")
    case True
    then have "trimAbove V (ys @ [y]) = trimAbove V ys" by (simp add: trimAbove_def)
    then show ?thesis using snoc.IH[OF s(1)] True by auto
  next
    case False
    then have "trimAbove V (ys @ [y]) = ys @ [y]" by (simp add: trimAbove_def)
    then show ?thesis using snoc.prems s(2) False by auto
  qed
qed

text \<open>When the values come in non-decreasing order, \<open>insert\<close> keeps each of them.\<close>

lemma rasterFold_all:
  assumes "sorted_wrt (\<lambda>a b. f a \<le> f b) cs" and "acc = [] \<or> (\<forall>c\<in>set cs. last acc \<le> f c)"
  shows "set (fold (\<lambda>c X. insert_set (f c) X) cs acc) = f ` set cs \<union> set acc"
  using assms
proof (induction cs arbitrary: acc)
  case Nil
  then show ?case by simp
next
  case (Cons c cs)
  let ?acc = "insert_set (f c) acc"
  have a: "?acc \<noteq> [] \<and> last ?acc = f c \<and> set ?acc = insert (f c) (set acc)"
  proof (cases "acc = [] \<or> last acc < f c")
    case True
    then show ?thesis by (auto simp: insert_set_def)
  next
    case False
    then have "last acc = f c" "acc \<noteq> []" using Cons.prems(2) by auto
    then show ?thesis using False last_in_set[of acc] by (auto simp: insert_set_def)
  qed
  have "\<forall>c'\<in>set cs. last ?acc \<le> f c'" using a Cons.prems(1) by simp
  then have "set (fold (\<lambda>c X. insert_set (f c) X) cs ?acc) = f ` set cs \<union> set ?acc"
    using Cons.IH[of ?acc] Cons.prems(1) by simp
  then show ?case using a by auto
qed

lemma rasterLoop_conic:
  assumes T: "conicTable L X0 nrm" and V: "V \<le> L"
  shows "set (rasterLoop nrm V X0) = rasterSet nrm X0 V"
proof -
  let ?f = "\<lambda>c. nrm ! (V - c)"
  have sx: "sorted_wrt (<) X0" using T unfolding conicTable_def by blast
  have tr: "sorted_wrt (<) (trimAbove V X0)" "set (trimAbove V X0) = {c \<in> set X0. c \<le> V}"
    using trimAbove_sorted[OF sx] by simp_all
  have "sorted_wrt (\<lambda>a b. b < a) (rev (trimAbove V X0))" using tr(1) by (simp add: sorted_wrt_rev)
  moreover have "\<And>a b. b < a \<Longrightarrow> ?f a \<le> ?f b"
    using conicTable_mono[OF T] V by simp
  ultimately have "sorted_wrt (\<lambda>a b. ?f a \<le> ?f b) (rev (trimAbove V X0))"
    using sorted_wrt_mono_rel[of "rev (trimAbove V X0)" "\<lambda>a b. b < a" "\<lambda>a b. ?f a \<le> ?f b"] by blast
  then have "set (fold (\<lambda>c X. insert_set (?f c) X) (rev (trimAbove V X0)) []) = ?f ` set (rev (trimAbove V X0)) \<union> set []"
    by (intro rasterFold_all) simp_all
  then show ?thesis unfolding rasterLoop_def rasterSet_def using tr(2) by simp
qed

text \<open>The raster points that \<open>BD\<close> computes from the merged set are raster points in the
  sense above.\<close>

lemma rasterLoop_merged:
  assumes sp: "sorted_wrt (<) pts" and sub: "\<forall>c\<in>set pts. c \<le> V \<longrightarrow> c \<in> set X0"
  shows "set (rasterLoop nrm V pts) \<subseteq> rasterSet nrm X0 V"
proof -
  let ?f = "\<lambda>c. nrm ! (V - c)"
  have tr: "set (trimAbove V pts) = {c \<in> set pts. c \<le> V}" using trimAbove_sorted[OF sp] by simp
  have "set (rasterLoop nrm V pts) \<subseteq> ?f ` set (rev (trimAbove V pts)) \<union> set []"
    unfolding rasterLoop_def by (rule rasterFold_subset)
  then show ?thesis unfolding rasterSet_def using tr sub by auto
qed

section \<open>The tables after \<open>initialize\<close>\<close>

lemma initialize_points_set:
  assumes "W \<le> L" and "0 < l" and "0 < w"
    and X0_def: "X0 = constructConicCombinations L l w"
    and nrm_def: "nrm = buildNormalize L X0"
    and g0_def: "g0 = initialize N L W l w"
  shows "conicTable L X0 nrm" and "normalize g0 = nrm" and "nrm ! L = L"
    and "sorted_wrt (<) (normalSetX g0)"
    and "set (normalSetX g0) = rasterSet nrm X0 L \<union> rasterSet nrm X0 W \<union> {L + 1}"
proof -
  show T: "conicTable L X0 nrm" unfolding X0_def nrm_def using conicTable_initialize[OF assms(2,3)] .
  show n: "normalize g0 = nrm" by (simp add: g0_def initialize_fields nrm_def X0_def)
  show LnL: "nrm ! L = L" using normalize_L[of L l w] by (simp add: nrm_def X0_def)
  define Wn where "Wn = nrm ! W"
  define rX where "rX = rasterLoop nrm L X0"
  define rY where "rY = rasterLoop nrm W X0"
  define pts where "pts = mergedPoints L Wn rX rY"
  have X0p: "X0 \<noteq> []" "hd X0 = 0" using conic_sorted[of L l w] by (simp_all add: X0_def)
  have rXp: "sorted_wrt (<) rX" "\<forall>x\<in>set rX. x \<le> L" "L \<in> set rX"
    using rasterLoop_props[OF order_refl X0_def nrm_def X0p] LnL by (simp_all add: rX_def)
  have rYp: "sorted_wrt (<) rY" "\<forall>x\<in>set rY. x \<le> Wn" "Wn \<in> set rY"
    using rasterLoop_props[OF assms(1) X0_def nrm_def X0p] by (simp_all add: rY_def Wn_def)
  have WnW: "Wn \<le> W" using normalize_le[OF assms(1), of l w] by (simp add: Wn_def nrm_def X0_def)
  have wl: "Wn \<le> L" using WnW assms(1) by simp
  have mp: "sorted_wrt (<) pts" "set pts = set rX \<union> set rY \<union> {L + 1}"
    using mergedPoints_spec[OF rXp(1) rYp(1) rXp(2) rYp(2) rXp(3) rYp(3) wl] by (simp_all add: pts_def)
  have e: "normalSetX g0 = pts"
    using LnL by (simp add: g0_def initialize_def Let_def split_beta constructRasterPoints_def
          X0_def[symmetric] nrm_def[symmetric] Wn_def rX_def rY_def pts_def)
  show "sorted_wrt (<) (normalSetX g0)" using mp(1) e by simp
  show "set (normalSetX g0) = rasterSet nrm X0 L \<union> rasterSet nrm X0 W \<union> {L + 1}"
    using mp(2) e rasterLoop_conic[OF T order_refl] rasterLoop_conic[OF T assms(1)]
    by (simp add: rX_def rY_def)
qed

lemma strict_sorted_distinct: "sorted_wrt (<) (xs :: nat list) \<Longrightarrow> distinct xs"
  by (induction xs) auto

text \<open>The cell of a rectangle whose sides are raster points, the second one at most the
  normalized width.\<close>

lemma initialize_cell:
  assumes "W \<le> L" and "0 < l" and "0 < w"
    and X0_def: "X0 = constructConicCombinations L l w"
    and nrm_def: "nrm = buildNormalize L X0"
    and g0_def: "g0 = initialize N L W l w"
    and a: "a \<in> rasterSet nrm X0 L \<union> rasterSet nrm X0 W"
    and b: "b \<in> rasterSet nrm X0 L \<union> rasterSet nrm X0 W" "b \<le> nrm ! W"
  shows "\<exists>i j. idx (indexX g0) a = i \<and> idx (indexY g0) b = j \<and>
           i < length (normalSetX g0) \<and> normalSetX g0 ! i = a \<and>
           j < length (normalSetX g0) \<and> normalSetX g0 ! j = b \<and>
           i < length (lowerBound g0) \<and> j < length (lowerBound g0 ! i) \<and>
           lowerBound g0 ! i ! j = lowerBound_macro a b l w \<and>
           i < length (cutPoints g0) \<and> j < length (cutPoints g0 ! i) \<and>
           homogeneous (cutPoints g0 ! i ! j) = 1"
proof -
  define pts where "pts = normalSetX g0"
  define ySize where "ySize = length (takeWhile (\<lambda>p. p \<le> nrm ! W) pts)"
  have ps: "sorted_wrt (<) pts" "set pts = rasterSet nrm X0 L \<union> rasterSet nrm X0 W \<union> {L + 1}"
      and LnL: "nrm ! L = L"
    using initialize_points_set[OF assms(1,2,3) X0_def nrm_def g0_def] by (simp_all add: pts_def)
  have dist: "distinct pts" using strict_sorted_distinct[OF ps(1)] .
  obtain i where i: "i < length pts" "pts ! i = a" using ps(2) a by (metis UnI1 in_set_conv_nth)
  obtain j where j: "j < length pts" "pts ! j = b" using ps(2) b(1) by (metis UnI1 in_set_conv_nth)
  have jy: "j < ySize" using takeWhile_reaches[OF ps(1) j(1)] j(2) b(2) by (simp add: ySize_def)
  have yl: "ySize \<le> length pts" by (simp add: ySize_def length_takeWhile_le)
  have g: "indexX g0 = buildIndex pts (length pts)" "indexY g0 = buildIndex pts ySize"
      "lowerBound g0 = map (\<lambda>x. map (\<lambda>y. lowerBound_macro x y l w) (take ySize pts)) pts"
      "cutPoints g0 = map (\<lambda>x. map (\<lambda>y. \<lparr>cx1 = 0, cx2 = 0, cy1 = 0, cy2 = 0, homogeneous = 1\<rparr>) (take ySize pts)) pts"
    unfolding pts_def ySize_def
    by (simp_all add: g0_def initialize_def Let_def split_beta constructRasterPoints_def
          X0_def[symmetric] nrm_def[symmetric])
  have ix: "idx (indexX g0) a = i"
    using buildIndex_nth[OF dist order_refl i(1)] i(2) by (simp add: idx_def g)
  have iy: "idx (indexY g0) b = j"
    using buildIndex_nth[OF dist yl jy] j(2) by (simp add: idx_def g)
  show ?thesis
    unfolding pts_def[symmetric] using ix iy i j jy yl by (simp add: g)
qed

section \<open>The cut point that the five-block solver leaves\<close>

lemma set2_overwrite: "set2 (set2 t i j a) i j b = set2 t i j b"
  by (cases "i < length t") (simp_all add: set2_def list_update_beyond not_less)

lemma set2_other: "(i, j) \<noteq> (i', j') \<Longrightarrow> set2 t i' j' v ! i ! j = t ! i ! j"
proof (cases "i = i'")
  case True
  assume "(i, j) \<noteq> (i', j')"
  then have "j \<noteq> j'" using True by simp
  then show ?thesis using True by (cases "i < length t") (simp_all add: set2_def list_update_beyond not_less)
next
  case False
  then show ?thesis by (simp add: set2_def)
qed

lemma set2_same: "i < length t \<Longrightarrow> j < length (t ! i) \<Longrightarrow> set2 t i j v ! i ! j = v"
  by (simp add: set2_def)

lemma blockCount_sameBounds: "sameBounds g0 g \<Longrightarrow> blockCount g blocks = blockCount g0 blocks"
  by (simp add: blockCount_def sameBounds_def normalizeBlock_def)

lemma solve_at_cap_state:
  assumes cap: "\<not> n < depthN g" and st: "cutState g0 L W z_lb g"
    and c: "(blocks, cpt) \<in> set (cutCandidates g0 L W)"
  shows "\<exists>solved z g'. solve bd L W n blocks z_lb z_ub cpt g = Some (solved, z, g') \<and>
           cutState g0 L W z g'"
proof -
  obtain x1 x2 y1 y2 where cp: "cpt = (x1, x2, y1, y2)" by (cases cpt) auto
  have sb: "sameBounds g0 g" using st by (simp add: cutState_def)
  let ?g1 = "g\<lparr>reachedLimit := set2 (reachedLimit g) (idx (indexX g) L) (idx (indexY g) W) 1\<rparr>"
  let ?S = "sum_list (map (\<lambda>(iX, iY). lowerBound ?g1 ! iX ! iY)
              (map (\<lambda>b. (idx (indexX g) (fst b), idx (indexY g) (snd b))) (map (normalizeBlock g) blocks)))"
  have S: "?S = blockCount g0 blocks"
    using blockCount_sameBounds[OF sb, of blocks] by (simp add: blockCount_def comp_def)
  let ?g2 = "storeCutPoint ?g1 L W x1 x2 y1 y2"
  have s1: "sameBounds g0 ?g1" using sb by (simp add: sameBounds_def)
  have s2: "sameBounds g0 ?g2" using sb by (simp add: sameBounds_def storeCutPoint_def)
  have s3: "sameBounds g0 (markOptimal ?g2 L W)" using sb by (simp add: sameBounds_def storeCutPoint_def markOptimal_def)
  have ix: "indexX g = indexX g0" "indexY g = indexY g0" using sb by (simp_all add: sameBounds_def)
  have cut: "cutPoints ?g2 = set2 (cutPoints g0) (idx (indexX g0) L) (idx (indexY g0) W)
                         \<lparr>cx1 = x1, cx2 = x2, cy1 = y1, cy2 = y2, homogeneous = 0\<rparr>"
    using st unfolding cutState_def by (auto simp: storeCutPoint_def ix set2_overwrite)
  have new: "cutState g0 L W ?S ?g2" "cutState g0 L W ?S (markOptimal ?g2 L W)"
    unfolding cutState_def using s2 s3 cut c S cp by (auto simp: markOptimal_def)
  have old: "cutState g0 L W z_lb ?g1" using st s1 unfolding cutState_def by auto
  have unf: "solve bd L W n blocks z_lb z_ub cpt g =
      (if ?S > z_lb then (if ?S = z_ub then Some (True, ?S, markOptimal ?g2 L W) else Some (False, ?S, ?g2))
       else Some (False, z_lb, ?g1))"
    using cap unfolding solve_def cp Let_def by simp
  show ?thesis unfolding unf using new old by auto
qed

lemma BD_loop_at_cap_state:
  assumes cap: "\<not> n < depthN g" and st: "cutState g0 L W z_lb g"
    and sub: "set cs \<subseteq> set (cutCandidates g0 L W)"
  shows "\<exists>z g'. BD_loop bd L W n z_ub cs z_lb g = Some (z, g') \<and> cutState g0 L W z g'"
  using assms
proof (induction cs arbitrary: z_lb g)
  case Nil
  then show ?case by simp
next
  case (Cons c cs)
  obtain blocks cpt where c: "c = (blocks, cpt)" by (cases c) auto
  have cin: "(blocks, cpt) \<in> set (cutCandidates g0 L W)" using Cons.prems(3) c by simp
  obtain solved z g' where s: "solve bd L W n blocks z_lb z_ub cpt g = Some (solved, z, g')"
      "cutState g0 L W z g'"
    using solve_at_cap_state[OF Cons.prems(1,2) cin] by blast
  show ?case
  proof (cases solved)
    case True
    then show ?thesis using s c by simp
  next
    case False
    have "depthN g' = depthN g" using s(2) Cons.prems(2) by (simp add: cutState_def sameBounds_def)
    then have cap': "\<not> n < depthN g'" using Cons.prems(1) by simp
    have sub': "set cs \<subseteq> set (cutCandidates g0 L W)" using Cons.prems(3) by simp
    obtain z' g'' where r: "BD_loop bd L W n z_ub cs z g' = Some (z', g'')" "cutState g0 L W z' g''"
      using Cons.IH[OF cap' s(2) sub'] by blast
    then show ?thesis using s c False by simp
  qed
qed

lemma BD_body_at_cap_state:
  assumes cap: "\<not> n < depthN g0" and wl: "W \<le> L"
  shows "\<exists>z g'. BD_body bd L W n g0 = Some (z, g') \<and> cutState g0 L W z g'"
proof -
  let ?iL = "idx (indexX g0) L" and ?iW = "idx (indexY g0) W"
  let ?z = "lowerBound g0 ! ?iL ! ?iW"
  let ?g1 = "g0\<lparr>reachedLimit := set2 (reachedLimit g0) ?iL ?iW 0\<rparr>"
  have st1: "cutState g0 L W ?z ?g1" by (simp add: cutState_def sameBounds_def)
  have st0: "cutState g0 L W ?z (markOptimal g0 L W)"
    by (simp add: cutState_def sameBounds_def markOptimal_def)
  have cap1: "\<not> n < depthN ?g1" using cap by simp
  have unf: "BD_body bd L W n g0 =
     (if ?z = 0 \<or> ?z = localUpperBound g0 ?iL ?iW then Some (?z, markOptimal g0 L W)
      else BD_loop bd L W n (localUpperBound g0 ?iL ?iW) (cutCandidates g0 L W) ?z ?g1)"
    using wl by (simp add: BD_body_def cutCandidates_def Let_def split_beta)
  show ?thesis
  proof (cases "?z = 0 \<or> ?z = localUpperBound g0 ?iL ?iW")
    case True
    then show ?thesis unfolding unf using st0 by auto
  next
    case False
    then show ?thesis unfolding unf
      using BD_loop_at_cap_state[OF cap1 st1 order_refl, of bd "localUpperBound g0 ?iL ?iW"] by auto
  qed
qed

section \<open>The partitions of a cut\<close>

lemma macro_sym: "lowerBound_macro a b l w = lowerBound_macro b a l w"
proof -
  have "max ((a div l) * (b div w)) ((a div w) * (b div l))
      = max ((b div l) * (a div w)) ((b div w) * (a div l))"
    by (simp only: mult.commute[of "a div l"] mult.commute[of "a div w"] max.commute)
  then show ?thesis unfolding lowerBound_macro_def by simp
qed

lemma macro_zero: "lowerBound_macro a 0 l w = 0" "lowerBound_macro 0 b l w = 0"
  by (simp_all add: lowerBound_macro_def)

lemma in_concat_mapE:
  assumes "x \<in> set (concat (map f xs))"
  obtains a where "a \<in> set xs" and "x \<in> set (f a)"
  using assms by auto

lemma in_mapE:
  assumes "x \<in> set (map f xs)"
  obtains a where "a \<in> set xs" and "x = f a"
  using assms by auto

lemma nonGuillotine_mem:
  assumes "(blocks, cpt) \<in> set (nonGuillotineCuts L W X Y)"
  shows "\<exists>i1 i2 j1 j2. 1 \<le> i1 \<and> i1 < i2 \<and> i2 < length X \<and> X ! i1 \<le> L div 2 \<and> X ! i2 + X ! i1 \<le> L \<and>
           1 \<le> j1 \<and> j1 < j2 \<and> j2 < length Y \<and> Y ! j1 < W \<and> Y ! j2 < W \<and>
           blocks = [(X ! i1, W - Y ! j1), (L - X ! i1, W - Y ! j2), (X ! i2 - X ! i1, Y ! j2 - Y ! j1),
                     (X ! i2, Y ! j1), (L - X ! i2, Y ! j2)] \<and>
           cpt = (X ! i1, X ! i2, Y ! j1, Y ! j2)"
proof -
  obtain i1 where i1: "i1 \<in> set (takeWhile (\<lambda>i. X ! i \<le> L div 2) [1..<length X])"
     and m1: "(blocks, cpt) \<in> set (concat (map (\<lambda>index_x2.
         concat (map (\<lambda>index_y1.
           map (\<lambda>index_y2.
                  ([(X ! i1, W - Y ! index_y1), (L - X ! i1, W - Y ! index_y2),
                    (X ! index_x2 - X ! i1, Y ! index_y2 - Y ! index_y1),
                    (X ! index_x2, Y ! index_y1), (L - X ! index_x2, Y ! index_y2)],
                   X ! i1, X ! index_x2, Y ! index_y1, Y ! index_y2))
             (takeWhile (\<lambda>index_y2. Y ! index_y2 < W \<and>
                            \<not> (X ! i1 + X ! index_x2 = L \<and> Y ! index_y1 + Y ! index_y2 > W))
                [index_y1 + 1..<length Y]))
           (takeWhile (\<lambda>index_y1. Y ! index_y1 < W) [1..<length Y])))
         (takeWhile (\<lambda>index_x2. X ! index_x2 + X ! i1 \<le> L) [i1 + 1..<length X])))"
    using assms unfolding nonGuillotineCuts_def Let_def by - (erule in_concat_mapE, blast)
  obtain i2 where i2: "i2 \<in> set (takeWhile (\<lambda>index_x2. X ! index_x2 + X ! i1 \<le> L) [i1 + 1..<length X])"
     and m2: "(blocks, cpt) \<in> set (concat (map (\<lambda>index_y1.
           map (\<lambda>index_y2.
                  ([(X ! i1, W - Y ! index_y1), (L - X ! i1, W - Y ! index_y2),
                    (X ! i2 - X ! i1, Y ! index_y2 - Y ! index_y1),
                    (X ! i2, Y ! index_y1), (L - X ! i2, Y ! index_y2)],
                   X ! i1, X ! i2, Y ! index_y1, Y ! index_y2))
             (takeWhile (\<lambda>index_y2. Y ! index_y2 < W \<and>
                            \<not> (X ! i1 + X ! i2 = L \<and> Y ! index_y1 + Y ! index_y2 > W))
                [index_y1 + 1..<length Y]))
           (takeWhile (\<lambda>index_y1. Y ! index_y1 < W) [1..<length Y])))"
    using m1 by - (erule in_concat_mapE, blast)
  obtain j1 where j1: "j1 \<in> set (takeWhile (\<lambda>index_y1. Y ! index_y1 < W) [1..<length Y])"
     and m3: "(blocks, cpt) \<in> set (map (\<lambda>index_y2.
                  ([(X ! i1, W - Y ! j1), (L - X ! i1, W - Y ! index_y2),
                    (X ! i2 - X ! i1, Y ! index_y2 - Y ! j1),
                    (X ! i2, Y ! j1), (L - X ! i2, Y ! index_y2)],
                   X ! i1, X ! i2, Y ! j1, Y ! index_y2))
             (takeWhile (\<lambda>index_y2. Y ! index_y2 < W \<and>
                            \<not> (X ! i1 + X ! i2 = L \<and> Y ! j1 + Y ! index_y2 > W))
                [j1 + 1..<length Y]))"
    using m2 by - (erule in_concat_mapE, blast)
  obtain j2 where j2: "j2 \<in> set (takeWhile (\<lambda>index_y2. Y ! index_y2 < W \<and>
                            \<not> (X ! i1 + X ! i2 = L \<and> Y ! j1 + Y ! index_y2 > W))
                [j1 + 1..<length Y])"
     and m4: "(blocks, cpt) = ([(X ! i1, W - Y ! j1), (L - X ! i1, W - Y ! j2),
                    (X ! i2 - X ! i1, Y ! j2 - Y ! j1),
                    (X ! i2, Y ! j1), (L - X ! i2, Y ! j2)],
                   X ! i1, X ! i2, Y ! j1, Y ! j2)"
    using m3 by - (erule in_mapE, blast)
  have a: "1 \<le> i1" "i1 < length X" "X ! i1 \<le> L div 2" using set_takeWhileD[OF i1] by simp_all
  have b: "i1 < i2" "i2 < length X" "X ! i2 + X ! i1 \<le> L" using set_takeWhileD[OF i2] by simp_all
  have c: "1 \<le> j1" "j1 < length Y" "Y ! j1 < W" using set_takeWhileD[OF j1] by simp_all
  have d: "j1 < j2" "j2 < length Y" "Y ! j2 < W" using set_takeWhileD[OF j2] by simp_all
  show ?thesis using a b c d m4 by blast
qed

lemma vertical_mem:
  assumes "(blocks, cpt) \<in> set (verticalCuts L W X)"
  shows "\<exists>i1. 1 \<le> i1 \<and> i1 < length X \<and> X ! i1 \<le> L div 2 \<and>
           blocks = [(X ! i1, W - 0), (L - X ! i1, W - 0)] \<and> cpt = (X ! i1, X ! i1, 0, 0)"
proof -
  obtain i1 where i1: "i1 \<in> set (takeWhile (\<lambda>i. X ! i \<le> L div 2) [1..<length X])"
     and m: "(blocks, cpt) = ([(X ! i1, W - 0), (L - X ! i1, W - 0)], X ! i1, X ! i1, 0, 0)"
    using assms unfolding verticalCuts_def Let_def by - (erule in_mapE, blast)
  have a: "1 \<le> i1" "i1 < length X" "X ! i1 \<le> L div 2" using set_takeWhileD[OF i1] by simp_all
  show ?thesis using a m by blast
qed

lemma horizontal_mem:
  assumes "(blocks, cpt) \<in> set (horizontalCuts L W Y)"
  shows "\<exists>j1. 1 \<le> j1 \<and> j1 < length Y \<and> Y ! j1 \<le> W div 2 \<and>
           blocks = [(L - 0, W - Y ! j1), (L - 0, Y ! j1)] \<and> cpt = (0, 0, Y ! j1, Y ! j1)"
proof -
  obtain j1 where j1: "j1 \<in> set (takeWhile (\<lambda>i. Y ! i \<le> W div 2) [1..<length Y])"
     and m: "(blocks, cpt) = ([(L - 0, W - Y ! j1), (L - 0, Y ! j1)], 0, 0, Y ! j1, Y ! j1)"
    using assms unfolding horizontalCuts_def Let_def by - (erule in_mapE, blast)
  have a: "1 \<le> j1" "j1 < length Y" "Y ! j1 \<le> W div 2" using set_takeWhileD[OF j1] by simp_all
  show ?thesis using a m by blast
qed

lemma strict_sorted_nth_pos:
  "sorted_wrt (<) (X :: nat list) \<Longrightarrow> 1 \<le> i \<Longrightarrow> i < length X \<Longrightarrow> 0 < X ! i"
proof -
  assume s: "sorted_wrt (<) X" and i: "1 \<le> i" "i < length X"
  have "X ! 0 < X ! i" using s i by (simp add: sorted_wrt_iff_nth_less)
  then show ?thesis by simp
qed

lemma nonGuillotine_props:
  assumes T: "conicTable L X0 nrm" and WL: "Wn \<le> L"
    and sX: "sorted_wrt (<) X" and subX: "set X \<subseteq> rasterSet nrm X0 L"
    and sY: "sorted_wrt (<) Y" and subY: "set Y \<subseteq> rasterSet nrm X0 Wn"
    and gn: "normalize g = nrm"
    and mem: "(blocks, x1, x2, y1, y2) \<in> set (nonGuillotineCuts L Wn X Y)"
  shows "partitionsAgree nrm l w (rasterSet nrm X0 L) (rasterSet nrm X0 Wn) L Wn blocks
           (getSubproblems g \<lparr>cx1 = x1, cx2 = x2, cy1 = y1, cy2 = y2, homogeneous = 0\<rparr> L Wn)"
proof -
  obtain i1 i2 j1 j2 where m: "1 \<le> i1" "i1 < i2" "i2 < length X" "X ! i1 \<le> L div 2" "X ! i2 + X ! i1 \<le> L"
      "1 \<le> j1" "j1 < j2" "j2 < length Y" "Y ! j1 < Wn" "Y ! j2 < Wn"
      "blocks = [(X ! i1, Wn - Y ! j1), (L - X ! i1, Wn - Y ! j2), (X ! i2 - X ! i1, Y ! j2 - Y ! j1),
                     (X ! i2, Y ! j1), (L - X ! i2, Y ! j2)]"
      "(x1, x2, y1, y2) = (X ! i1, X ! i2, Y ! j1, Y ! j2)"
    using nonGuillotine_mem[OF mem] by blast
  have e: "x1 = X ! i1" "x2 = X ! i2" "y1 = Y ! j1" "y2 = Y ! j2" using m(12) by simp_all
  have xr: "x1 \<in> rasterSet nrm X0 L" "x2 \<in> rasterSet nrm X0 L"
    using subX m(1,2,3) nth_mem[of i1 X] nth_mem[of i2 X] unfolding e by auto
  have yr: "y1 \<in> rasterSet nrm X0 Wn" "y2 \<in> rasterSet nrm X0 Wn"
    using subY m(6,7,8) nth_mem[of j1 Y] nth_mem[of j2 Y] unfolding e by auto
  have x1p: "0 < x1" unfolding e using strict_sorted_nth_pos[OF sX m(1)] m(2,3) by simp
  have y1p: "0 < y1" unfolding e using strict_sorted_nth_pos[OF sY m(6)] m(7,8) by simp
  have x12: "x1 < x2" unfolding e using sX m(2,3) by (simp add: sorted_wrt_iff_nth_less)
  have y12: "y1 < y2" unfolding e using sY m(7,8) by (simp add: sorted_wrt_iff_nth_less)
  have xs: "x2 + x1 \<le> L" using m(5) unfolding e .
  note px1 = rasterSet_props[OF T order_refl xr(1)]
  note px2 = rasterSet_props[OF T order_refl xr(2)]
  note py1 = rasterSet_props[OF T WL yr(1)]
  note py2 = rasterSet_props[OF T WL yr(2)]
  have a1: "nrm ! (L - x1) \<in> rasterSet nrm X0 L" using rasterSet_rest[OF px1(1) px1(3)] .
  have a2: "nrm ! (L - x2) \<in> rasterSet nrm X0 L" using rasterSet_rest[OF px2(1) px2(3)] .
  have a3: "nrm ! (x2 - x1) \<in> rasterSet nrm X0 L"
    using rasterSet_closure[OF T order_refl xr(2) px1(1)] x12 by simp
  have b1: "nrm ! (Wn - y1) \<in> rasterSet nrm X0 Wn" using rasterSet_rest[OF py1(1) py1(3)] .
  have b2: "nrm ! (Wn - y2) \<in> rasterSet nrm X0 Wn" using rasterSet_rest[OF py2(1) py2(3)] .
  have b3: "nrm ! (y2 - y1) \<in> rasterSet nrm X0 Wn"
    using rasterSet_closure[OF T WL yr(2) py1(1)] y12 by simp
  have lt: "x1 < L" "x2 < L" "nrm ! (L - x1) < L" "nrm ! (L - x2) < L" "nrm ! (x2 - x1) < L"
  proof -
    show "x1 < L" using x12 px2(3) by simp
    show "x2 < L" using xs x1p by simp
    have "nrm ! (L - x1) \<le> L - x1" using conicTable_nrm(2)[OF T, of "L - x1"] by simp
    then show "nrm ! (L - x1) < L" using x1p px1(3) by simp
    have "nrm ! (L - x2) \<le> L - x2" using conicTable_nrm(2)[OF T, of "L - x2"] by simp
    then show "nrm ! (L - x2) < L" using x1p x12 px2(3) by simp
    have "nrm ! (x2 - x1) \<le> x2 - x1" using conicTable_nrm(2)[OF T, of "x2 - x1"] px2(3) by simp
    then show "nrm ! (x2 - x1) < L" using x1p x12 px2(3) by simp
  qed
  have bl: "blocks = [(x1, Wn - y1), (L - x1, Wn - y2), (x2 - x1, y2 - y1), (x2, y1), (L - x2, y2)]"
    using m(11) unfolding e .
  have sub: "getSubproblems g \<lparr>cx1 = x1, cx2 = x2, cy1 = y1, cy2 = y2, homogeneous = 0\<rparr> L Wn
      = [(x1, nrm ! (Wn - y1)), (nrm ! (L - x1), nrm ! (Wn - y2)), (nrm ! (x2 - x1), nrm ! (y2 - y1)),
         (x2, y1), (nrm ! (L - x2), y2)]"
    by (simp add: getSubproblems_def gn Let_def)
  show ?thesis
    unfolding partitionsAgree_def bl sub
    using xr yr a1 a2 a3 b1 b2 b3 lt px1(4) px2(4) py1(4) py2(4) by simp
qed

lemma vertical_props:
  assumes T: "conicTable L X0 nrm" and WL: "Wn \<le> L" and WX: "Wn \<in> set X0"
    and sX: "sorted_wrt (<) X" and subX: "set X \<subseteq> rasterSet nrm X0 L"
    and gn: "normalize g = nrm"
    and mem: "(blocks, x1, x2, y1, y2) \<in> set (verticalCuts L Wn X)"
  shows "partitionsAgree nrm l w (rasterSet nrm X0 L) (rasterSet nrm X0 Wn) L Wn blocks
           (getSubproblems g \<lparr>cx1 = x1, cx2 = x2, cy1 = y1, cy2 = y2, homogeneous = 0\<rparr> L Wn)"
proof -
  obtain i1 where m: "1 \<le> i1" "i1 < length X" "X ! i1 \<le> L div 2"
      "blocks = [(X ! i1, Wn - 0), (L - X ! i1, Wn - 0)]" "(x1, x2, y1, y2) = (X ! i1, X ! i1, 0, 0)"
    using vertical_mem[OF mem] by blast
  have e: "x1 = X ! i1" "x2 = X ! i1" "y1 = 0" "y2 = 0" using m(5) by simp_all
  have xr: "X ! i1 \<in> rasterSet nrm X0 L" using subX m(2) nth_mem[of i1 X] by auto
  have x1p: "0 < X ! i1" using strict_sorted_nth_pos[OF sX m(1,2)] .
  note px1 = rasterSet_props[OF T order_refl xr]
  have a1: "nrm ! (L - X ! i1) \<in> rasterSet nrm X0 L" using rasterSet_rest[OF px1(1) px1(3)] .
  have nW: "nrm ! Wn = Wn" using conicTable_fixed[OF T WX] .
  have wr: "Wn \<in> rasterSet nrm X0 Wn" using rasterSet_top[OF T WL] nW by simp
  have z: "nrm ! 0 = 0" using conicTable_nrm(2)[OF T, of 0] by simp
  have lt: "X ! i1 < L" "nrm ! (L - X ! i1) < L"
  proof -
    show "X ! i1 < L" using m(3) x1p by simp
    have "nrm ! (L - X ! i1) \<le> L - X ! i1" using conicTable_nrm(2)[OF T, of "L - X ! i1"] by simp
    then show "nrm ! (L - X ! i1) < L" using x1p px1(3) by simp
  qed
  have sub: "getSubproblems g \<lparr>cx1 = x1, cx2 = x2, cy1 = y1, cy2 = y2, homogeneous = 0\<rparr> L Wn
      = [(X ! i1, Wn), (nrm ! (L - X ! i1), Wn), (0, 0), (X ! i1, 0), (nrm ! (L - X ! i1), 0)]"
    by (simp add: getSubproblems_def gn e nW z Let_def)
  show ?thesis
    unfolding partitionsAgree_def m(4) sub
    using xr a1 wr lt px1(4) nW by (simp add: macro_zero)
qed

lemma horizontal_props:
  assumes T: "conicTable L X0 nrm" and WL: "Wn \<le> L" and WX: "Wn \<in> set X0"
    and sY: "sorted_wrt (<) Y" and subY: "set Y \<subseteq> rasterSet nrm X0 Wn"
    and gn: "normalize g = nrm"
    and mem: "(blocks, x1, x2, y1, y2) \<in> set (horizontalCuts L Wn Y)"
  shows "partitionsAgree nrm l w (rasterSet nrm X0 L) (rasterSet nrm X0 Wn) L Wn blocks
           (getSubproblems g \<lparr>cx1 = x1, cx2 = x2, cy1 = y1, cy2 = y2, homogeneous = 0\<rparr> L Wn)"
proof -
  obtain j1 where m: "1 \<le> j1" "j1 < length Y" "Y ! j1 \<le> Wn div 2"
      "blocks = [(L - 0, Wn - Y ! j1), (L - 0, Y ! j1)]" "(x1, x2, y1, y2) = (0, 0, Y ! j1, Y ! j1)"
    using horizontal_mem[OF mem] by blast
  have e: "x1 = 0" "x2 = 0" "y1 = Y ! j1" "y2 = Y ! j1" using m(5) by simp_all
  have yr: "Y ! j1 \<in> rasterSet nrm X0 Wn" using subY m(2) nth_mem[of j1 Y] by auto
  have y1p: "0 < Y ! j1" using strict_sorted_nth_pos[OF sY m(1,2)] .
  note py1 = rasterSet_props[OF T WL yr]
  have b1: "nrm ! (Wn - Y ! j1) \<in> rasterSet nrm X0 Wn" using rasterSet_rest[OF py1(1) py1(3)] .
  have LX: "L \<in> set X0" using T unfolding conicTable_def by blast
  have nL: "nrm ! L = L" using conicTable_fixed[OF T LX] .
  have lr: "L \<in> rasterSet nrm X0 L" using rasterSet_top[OF T order_refl] nL by simp
  have z: "nrm ! 0 = 0" using conicTable_nrm(2)[OF T, of 0] by simp
  have lt: "Y ! j1 < Wn" "nrm ! (Wn - Y ! j1) < Wn"
  proof -
    show "Y ! j1 < Wn" using m(3) y1p by simp
    have "nrm ! (Wn - Y ! j1) \<le> Wn - Y ! j1" using conicTable_nrm(2)[OF T, of "Wn - Y ! j1"] WL by simp
    then show "nrm ! (Wn - Y ! j1) < Wn" using y1p py1(3) by simp
  qed
  have sub: "getSubproblems g \<lparr>cx1 = x1, cx2 = x2, cy1 = y1, cy2 = y2, homogeneous = 0\<rparr> L Wn
      = [(0, nrm ! (Wn - Y ! j1)), (L, nrm ! (Wn - Y ! j1)), (0, 0), (0, Y ! j1), (L, Y ! j1)]"
    by (simp add: getSubproblems_def gn e nL z Let_def)
  show ?thesis
    unfolding partitionsAgree_def m(4) sub
    using yr b1 lr lt py1(4) nL by (simp add: macro_zero)
qed

section \<open>The candidates of the top-level call\<close>

lemma cap_context:
  assumes "W \<le> L" and "0 < l" and "0 < w"
    and X0_def: "X0 = constructConicCombinations L l w"
    and nrm_def: "nrm = buildNormalize L X0"
    and g0_def: "g0 = initialize N L W l w"
    and Wn_def: "Wn = nrm ! W"
  shows "Wn \<le> L" and "Wn \<in> set X0" and "nrm ! Wn = Wn"
    and "rasterSet nrm X0 Wn = rasterSet nrm X0 W"
    and "sorted_wrt (<) (rasterLoop nrm L (normalSetX g0))"
    and "set (rasterLoop nrm L (normalSetX g0)) \<subseteq> rasterSet nrm X0 L"
    and "sorted_wrt (<) (rasterLoop nrm Wn (normalSetX g0))"
    and "set (rasterLoop nrm Wn (normalSetX g0)) \<subseteq> rasterSet nrm X0 Wn"
proof -
  note ps = initialize_points_set[OF assms(1,2,3) X0_def nrm_def g0_def]
  have T: "conicTable L X0 nrm" using ps(1) .
  have WnW: "Wn \<le> W" unfolding Wn_def using conicTable_nrm(2)[OF T assms(1)] .
  show WL: "Wn \<le> L" using WnW assms(1) by simp
  show WX: "Wn \<in> set X0" unfolding Wn_def using conicTable_nrm(1)[OF T assms(1)] .
  show "nrm ! Wn = Wn" using conicTable_fixed[OF T WX] .
  show "rasterSet nrm X0 Wn = rasterSet nrm X0 W"
    unfolding Wn_def using rasterSet_normalized[OF T assms(1)] .
  have sub: "\<And>V. V \<le> L \<Longrightarrow> \<forall>c\<in>set (normalSetX g0). c \<le> V \<longrightarrow> c \<in> set X0"
  proof (intro ballI impI)
    fix V c assume V: "V \<le> L" and c: "c \<in> set (normalSetX g0)" "c \<le> V"
    have "c \<noteq> L + 1" using c(2) V by simp
    then have "c \<in> rasterSet nrm X0 L \<or> c \<in> rasterSet nrm X0 W" using c(1) ps(5) by auto
    then show "c \<in> set X0"
      using rasterSet_props(1)[OF T order_refl] rasterSet_props(1)[OF T assms(1)] by blast
  qed
  show "sorted_wrt (<) (rasterLoop nrm L (normalSetX g0))"
    unfolding rasterLoop_def by (rule rasterFold_sorted) simp
  show "sorted_wrt (<) (rasterLoop nrm Wn (normalSetX g0))"
    unfolding rasterLoop_def by (rule rasterFold_sorted) simp
  show "set (rasterLoop nrm L (normalSetX g0)) \<subseteq> rasterSet nrm X0 L"
    using rasterLoop_merged[OF ps(4) sub[OF order_refl]] .
  show "set (rasterLoop nrm Wn (normalSetX g0)) \<subseteq> rasterSet nrm X0 Wn"
    using rasterLoop_merged[OF ps(4) sub[OF WL]] .
qed

lemma candidates_agree:
  assumes "W \<le> L" and "0 < l" and "0 < w"
    and X0_def: "X0 = constructConicCombinations L l w"
    and nrm_def: "nrm = buildNormalize L X0"
    and g0_def: "g0 = initialize N L W l w"
    and Wn_def: "Wn = nrm ! W"
    and gn: "normalize g = nrm"
    and mem: "(blocks, x1, x2, y1, y2) \<in> set (cutCandidates g0 L Wn)"
  shows "partitionsAgree nrm l w (rasterSet nrm X0 L) (rasterSet nrm X0 Wn) L Wn blocks
           (getSubproblems g \<lparr>cx1 = x1, cx2 = x2, cy1 = y1, cy2 = y2, homogeneous = 0\<rparr> L Wn)"
proof -
  note ps = initialize_points_set[OF assms(1,2,3) X0_def nrm_def g0_def]
  note cc = cap_context[OF assms(1,2,3) X0_def nrm_def g0_def Wn_def]
  let ?X = "rasterLoop nrm L (normalSetX g0)" and ?Y = "rasterLoop nrm Wn (normalSetX g0)"
  have "cutCandidates g0 L Wn = nonGuillotineCuts L Wn ?X ?Y @ verticalCuts L Wn ?X @ horizontalCuts L Wn ?Y"
    by (simp add: cutCandidates_def constructRasterPoints_def ps(2))
  then consider "(blocks, x1, x2, y1, y2) \<in> set (nonGuillotineCuts L Wn ?X ?Y)"
    | "(blocks, x1, x2, y1, y2) \<in> set (verticalCuts L Wn ?X)"
    | "(blocks, x1, x2, y1, y2) \<in> set (horizontalCuts L Wn ?Y)"
    using mem by auto
  then show ?thesis
  proof cases
    case 1
    show ?thesis using nonGuillotine_props[OF ps(1) cc(1) cc(5,6,7,8) gn 1] .
  next
    case 2
    show ?thesis using vertical_props[OF ps(1) cc(1,2) cc(5,6) gn 2] .
  next
    case 3
    show ?thesis using horizontal_props[OF ps(1) cc(1,2) cc(7,8) gn 3] .
  qed
qed

text \<open>The sum that \<open>solve\<close> reads for the partitions of a cut.\<close>

lemma blockCount_macro:
  assumes "W \<le> L" and "0 < l" and "0 < w"
    and X0_def: "X0 = constructConicCombinations L l w"
    and nrm_def: "nrm = buildNormalize L X0"
    and g0_def: "g0 = initialize N L W l w"
    and Wn_def: "Wn = nrm ! W"
    and V: "\<forall>b\<in>set blocks. nrm ! fst b \<in> rasterSet nrm X0 L \<and> nrm ! snd b \<in> rasterSet nrm X0 Wn"
  shows "blockCount g0 blocks = (\<Sum>b\<leftarrow>blocks. lowerBound_macro (nrm ! fst b) (nrm ! snd b) l w)"
proof -
  note ps = initialize_points_set[OF assms(1,2,3) X0_def nrm_def g0_def]
  note cc = cap_context[OF assms(1,2,3) X0_def nrm_def g0_def Wn_def]
  have cell: "\<And>a b. a \<in> rasterSet nrm X0 L \<union> rasterSet nrm X0 W \<Longrightarrow>
      b \<in> rasterSet nrm X0 L \<union> rasterSet nrm X0 W \<Longrightarrow> b \<le> Wn \<Longrightarrow>
      lowerBound g0 ! idx (indexX g0) a ! idx (indexY g0) b = lowerBound_macro a b l w"
    using initialize_cell[OF assms(1,2,3) X0_def nrm_def g0_def] unfolding Wn_def by blast
  have one: "\<And>b. b \<in> set blocks \<Longrightarrow>
      lowerBound g0 ! idx (indexX g0) (fst (normalizeBlock g0 b)) ! idx (indexY g0) (snd (normalizeBlock g0 b))
        = lowerBound_macro (nrm ! fst b) (nrm ! snd b) l w"
  proof -
    fix b assume "b \<in> set blocks"
    then have r: "nrm ! fst b \<in> rasterSet nrm X0 L" "nrm ! snd b \<in> rasterSet nrm X0 W"
      using V cc(4) by auto
    have le: "nrm ! snd b \<le> Wn"
      using rasterSet_props(2)[OF ps(1) assms(1) r(2)] unfolding Wn_def .
    show "lowerBound g0 ! idx (indexX g0) (fst (normalizeBlock g0 b)) ! idx (indexY g0) (snd (normalizeBlock g0 b))
        = lowerBound_macro (nrm ! fst b) (nrm ! snd b) l w"
    proof (cases "nrm ! fst b < nrm ! snd b")
      case True
      then have n: "normalizeBlock g0 b = (nrm ! snd b, nrm ! fst b)"
        by (simp add: normalizeBlock_def ps(2) Let_def)
      have "nrm ! fst b \<le> Wn" using True le by simp
      then show ?thesis unfolding n using cell[of "nrm ! snd b" "nrm ! fst b"] r
        by (simp add: macro_sym[of "nrm ! snd b"])
    next
      case False
      then have n: "normalizeBlock g0 b = (nrm ! fst b, nrm ! snd b)"
        by (simp add: normalizeBlock_def ps(2) Let_def)
      show ?thesis unfolding n using cell[of "nrm ! fst b" "nrm ! snd b"] r le by simp
    qed
  qed
  show ?thesis unfolding blockCount_def
    by (rule arg_cong[where f = sum_list], rule map_cong[OF refl]) (rule one)
qed

section \<open>The boxes that the reconstruction draws\<close>

lemma length_gridBoxes: "length (gridBoxes a b x y dx dy) = (x div a) * (y div b)"
  by (simp add: gridBoxes_def length_concat comp_def sum_list_triv)

lemma length_drawHomogeneous:
  "int (length (drawHomogeneous l w x y dx dy)) = lowerBound_macro x y l w"
  by (simp add: drawHomogeneous_def boxOrientation_def Let_def length_gridBoxes
        lowerBound_macro_def HORIZONTAL_def VERTICAL_def max_def)

text \<open>A partition with raster sides, other than the pallet itself, has no cut point of its
  own: it is drawn homogeneously.\<close>

lemma draw_block:
  assumes "W \<le> L" and "0 < l" and "0 < w"
    and X0_def: "X0 = constructConicCombinations L l w"
    and nrm_def: "nrm = buildNormalize L X0"
    and g0_def: "g0 = initialize N L W l w"
    and Wn_def: "Wn = nrm ! W"
    and gi: "indexX g = indexX g0" "indexY g = indexY g0"
    and gc: "\<forall>i j. (i, j) \<noteq> (idx (indexX g0) L, idx (indexY g0) Wn) \<longrightarrow>
               cutPoints g ! i ! j = cutPoints g0 ! i ! j"
    and good: "Li \<in> rasterSet nrm X0 L" "Wi \<in> rasterSet nrm X0 Wn" "Li < L \<or> Wi < Wn"
  shows "draw (Suc k) g l w Li Wi dx dy out = Some (out @ drawHomogeneous l w Li Wi dx dy)"
proof -
  note ps = initialize_points_set[OF assms(1,2,3) X0_def nrm_def g0_def]
  note cc = cap_context[OF assms(1,2,3) X0_def nrm_def g0_def Wn_def]
  have WiW: "Wi \<le> Wn" using rasterSet_props(3)[OF ps(1) cc(1) good(2)] .
  have LiL: "Li \<le> L" using rasterSet_props(3)[OF ps(1) order_refl good(1)] .
  have Wir: "Wi \<in> rasterSet nrm X0 W" using good(2) cc(4) by simp
  have Lr: "L \<in> rasterSet nrm X0 L" using rasterSet_top[OF ps(1) order_refl] ps(3) by simp
  have Wr: "Wn \<in> rasterSet nrm X0 W" using rasterSet_top[OF ps(1) assms(1)] Wn_def by simp
  obtain iT jT where top: "idx (indexX g0) L = iT" "idx (indexY g0) Wn = jT"
      "normalSetX g0 ! iT = L" "normalSetX g0 ! jT = Wn"
    using initialize_cell[OF assms(1,2,3) X0_def nrm_def g0_def, of L Wn] Lr Wr Wn_def by auto
  have cell: "\<And>a b. a \<in> rasterSet nrm X0 L \<union> rasterSet nrm X0 W \<Longrightarrow>
      b \<in> rasterSet nrm X0 L \<union> rasterSet nrm X0 W \<Longrightarrow> b \<le> Wn \<Longrightarrow> (a, b) \<noteq> (L, Wn) \<Longrightarrow>
      homogeneous (cutPoints g ! idx (indexX g) a ! idx (indexY g) b) = 1"
  proof -
    fix a b assume a: "a \<in> rasterSet nrm X0 L \<union> rasterSet nrm X0 W"
      and b: "b \<in> rasterSet nrm X0 L \<union> rasterSet nrm X0 W" "b \<le> Wn" and ne: "(a, b) \<noteq> (L, Wn)"
    obtain i j where c: "idx (indexX g0) a = i" "idx (indexY g0) b = j"
        "normalSetX g0 ! i = a" "normalSetX g0 ! j = b" "homogeneous (cutPoints g0 ! i ! j) = 1"
      using initialize_cell[OF assms(1,2,3) X0_def nrm_def g0_def a b(1)] b(2) Wn_def by auto
    have "(i, j) \<noteq> (iT, jT)" using c(3,4) top(3,4) ne by auto
    then have "cutPoints g ! i ! j = cutPoints g0 ! i ! j" using gc top(1,2) by simp
    then show "homogeneous (cutPoints g ! idx (indexX g) a ! idx (indexY g) b) = 1"
      using c by (simp add: gi)
  qed
  show ?thesis
  proof (cases "Wi \<le> Li")
    case True
    have "(Li, Wi) \<noteq> (L, Wn)" using good(3) by auto
    then have "homogeneous (cutPoints g ! idx (indexX g) Li ! idx (indexY g) Wi) = 1"
      using cell[of Li Wi] good(1) Wir WiW by simp
    then show ?thesis using True by (simp add: draw_body_def drawNormal_def Let_def)
  next
    case False
    then have lt: "Li < Wi" by simp
    have "(Wi, Li) \<noteq> (L, Wn)" using lt WiW LiL by auto
    moreover have "Li \<le> Wn" using lt WiW by simp
    ultimately have "homogeneous (cutPoints g ! idx (indexX g) Wi ! idx (indexY g) Li) = 1"
      using cell[of Wi Li] good(1) Wir by simp
    then show ?thesis using False by (simp add: draw_body_def drawRotation_def Let_def)
  qed
qed

lemma drawBlocks_count:
  assumes dr: "\<And>Li Wi dx dy out. Li \<in> RL \<Longrightarrow> Wi \<in> RW \<Longrightarrow> Li < L \<or> Wi < W \<Longrightarrow>
                 dr Li Wi dx dy out = Some (out @ drawHomogeneous l w Li Wi dx dy)"
    and RLb: "\<forall>x\<in>RL. x \<le> L" and RWb: "\<forall>y\<in>RW. y \<le> W" and WL: "W \<le> L"
    and good: "\<forall>b\<in>set bs. fst b \<noteq> 0 \<and> fst (snd b) \<noteq> 0 \<longrightarrow>
                 fst b \<in> RL \<and> fst (snd b) \<in> RW \<and> (fst b < L \<or> fst (snd b) < W)"
  shows "\<exists>out'. drawBlocks dr L W bs out = Some out' \<and>
           int (length out') = int (length out) + (\<Sum>b\<leftarrow>bs. lowerBound_macro (fst b) (fst (snd b)) l w)"
  using good
proof (induction bs arbitrary: out)
  case Nil
  then show ?case by simp
next
  case (Cons b bs)
  obtain Li Wi dx dy where b: "b = (Li, Wi, dx, dy)" by (cases b) auto
  have rest: "\<forall>b\<in>set bs. fst b \<noteq> 0 \<and> fst (snd b) \<noteq> 0 \<longrightarrow>
                 fst b \<in> RL \<and> fst (snd b) \<in> RW \<and> (fst b < L \<or> fst (snd b) < W)"
    using Cons.prems by simp
  show ?case
  proof (cases "Li \<noteq> 0 \<and> Wi \<noteq> 0")
    case True
    then have g: "Li \<in> RL" "Wi \<in> RW" "Li < L \<or> Wi < W" using Cons.prems b by auto
    have le: "Li \<le> L" "Wi \<le> W" using g RLb RWb by auto
    have notself: "\<not> ((Li = L \<and> Wi = W) \<or> (Li = W \<and> Wi = L))" using g(3) le WL by auto
    let ?out = "out @ drawHomogeneous l w Li Wi dx dy"
    obtain out' where r: "drawBlocks dr L W bs ?out = Some out'"
        "int (length out') = int (length ?out) + (\<Sum>b\<leftarrow>bs. lowerBound_macro (fst b) (fst (snd b)) l w)"
      using Cons.IH[OF rest, of ?out] by blast
    have "drawBlocks dr L W (b # bs) out = Some out'"
      using True notself dr[OF g, of dx dy out] r(1) by (simp add: b)
    moreover have "int (length ?out) = int (length out) + lowerBound_macro Li Wi l w"
      using length_drawHomogeneous[of l w Li Wi dx dy] by simp
    ultimately show ?thesis using r(2) by (simp add: b)
  next
    case False
    then have z: "lowerBound_macro Li Wi l w = 0" using macro_zero[of _ l w] by auto
    obtain out' where r: "drawBlocks dr L W bs out = Some out'"
        "int (length out') = int (length out) + (\<Sum>b\<leftarrow>bs. lowerBound_macro (fst b) (fst (snd b)) l w)"
      using Cons.IH[OF rest, of out] by blast
    have "drawBlocks dr L W (b # bs) out = Some out'" using False r(1) by (auto simp: b)
    then show ?thesis using r(2) z by (simp add: b)
  qed
qed

lemma draw_top:
  assumes "W \<le> L" and "0 < l" and "0 < w"
    and X0_def: "X0 = constructConicCombinations L l w"
    and nrm_def: "nrm = buildNormalize L X0"
    and g0_def: "g0 = initialize N L W l w"
    and Wn_def: "Wn = nrm ! W"
    and st: "cutState g0 L Wn z g1"
    and g_def: "g = writeLowerBound g1 i j v"
  shows "\<exists>out. drawBD (Suc (Suc k)) g l w L Wn [] = Some out \<and> int (length out) = z"
proof -
  note ps = initialize_points_set[OF assms(1,2,3) X0_def nrm_def g0_def]
  note cc = cap_context[OF assms(1,2,3) X0_def nrm_def g0_def Wn_def]
  let ?RL = "rasterSet nrm X0 L" and ?RW = "rasterSet nrm X0 Wn"
  have sb: "sameBounds g0 g1" using st by (simp add: cutState_def)
  have gi: "indexX g = indexX g0" "indexY g = indexY g0" and gn: "normalize g = nrm"
      and gcut: "cutPoints g = cutPoints g1"
    using sb ps(2) by (simp_all add: g_def writeLowerBound_def sameBounds_def)
  have Lr: "L \<in> rasterSet nrm X0 L" using rasterSet_top[OF ps(1) order_refl] ps(3) by simp
  have Wr: "Wn \<in> rasterSet nrm X0 W" using rasterSet_top[OF ps(1) assms(1)] Wn_def by simp
  obtain iT jT where top: "idx (indexX g0) L = iT" "idx (indexY g0) Wn = jT"
      "iT < length (cutPoints g0)" "jT < length (cutPoints g0 ! iT)"
      "homogeneous (cutPoints g0 ! iT ! jT) = 1"
      "lowerBound g0 ! iT ! jT = lowerBound_macro L Wn l w"
    using initialize_cell[OF assms(1,2,3) X0_def nrm_def g0_def, of L Wn] Lr Wr Wn_def by auto
  have unf: "drawBD (Suc (Suc k)) g l w L Wn [] = drawNormal (draw (Suc k) g l w) g l w L Wn 0 0 []"
    using cc(1) by (simp add: drawBD_def draw_body_def)
  from st consider
      (hom) "cutPoints g1 = cutPoints g0" "z = lowerBound g0 ! iT ! jT"
    | (cut) blocks x1 x2 y1 y2 where "(blocks, x1, x2, y1, y2) \<in> set (cutCandidates g0 L Wn)"
        "cutPoints g1 = set2 (cutPoints g0) iT jT \<lparr>cx1 = x1, cx2 = x2, cy1 = y1, cy2 = y2, homogeneous = 0\<rparr>"
        "z = blockCount g0 blocks"
    unfolding cutState_def top by blast
  then show ?thesis
  proof cases
    case hom
    have "homogeneous (cutPoints g ! idx (indexX g) L ! idx (indexY g) Wn) = 1"
      using top hom(1) by (simp add: gi gcut)
    then have "drawBD (Suc (Suc k)) g l w L Wn [] = Some ([] @ drawHomogeneous l w L Wn 0 0)"
      unfolding unf by (simp add: drawNormal_def Let_def)
    then show ?thesis using length_drawHomogeneous[of l w L Wn 0 0] hom(2) top(6) by simp
  next
    case cut
    let ?c = "\<lparr>cx1 = x1, cx2 = x2, cy1 = y1, cy2 = y2, homogeneous = 0\<rparr>"
    have ctop: "cutPoints g ! idx (indexX g) L ! idx (indexY g) Wn = ?c"
      using set2_same[OF top(3,4)] by (simp add: gi gcut cut(2) top)
    have gc: "\<forall>i j. (i, j) \<noteq> (idx (indexX g0) L, idx (indexY g0) Wn) \<longrightarrow>
               cutPoints g ! i ! j = cutPoints g0 ! i ! j"
      using set2_other[of _ _ iT jT "cutPoints g0" ?c] by (simp add: gcut cut(2) top)
    obtain L1 W1 L2 W2 L3 W3 L4 W4 L5 W5 where
      subs: "getSubproblems g ?c L Wn = [(L1, W1), (L2, W2), (L3, W3), (L4, W4), (L5, W5)]"
      by (simp add: getSubproblems_def Let_def)
    have pa: "partitionsAgree nrm l w ?RL ?RW L Wn blocks [(L1, W1), (L2, W2), (L3, W3), (L4, W4), (L5, W5)]"
      using candidates_agree[OF assms(1,2,3) X0_def nrm_def g0_def Wn_def gn cut(1)] unfolding subs .
    let ?bs = "[(L1, W1, 0, 0 + W4), (L2, W2, 0 + L1, 0 + W5), (L3, W3, 0 + L1, 0 + W4),
                (L4, W4, 0, 0), (L5, W5, 0 + L4, 0)]"
    have dn: "drawBD (Suc (Suc k)) g l w L Wn [] = drawBlocks (draw (Suc k) g l w) L Wn ?bs []"
      unfolding unf by (simp add: drawNormal_def Let_def ctop subs)
    have good: "\<forall>b\<in>set ?bs. fst b \<noteq> 0 \<and> fst (snd b) \<noteq> 0 \<longrightarrow>
                 fst b \<in> ?RL \<and> fst (snd b) \<in> ?RW \<and> (fst b < L \<or> fst (snd b) < Wn)"
      using pa unfolding partitionsAgree_def by simp
    have dr: "\<And>Li Wi dx dy out. Li \<in> ?RL \<Longrightarrow> Wi \<in> ?RW \<Longrightarrow> Li < L \<or> Wi < Wn \<Longrightarrow>
                 draw (Suc k) g l w Li Wi dx dy out = Some (out @ drawHomogeneous l w Li Wi dx dy)"
      using draw_block[OF assms(1,2,3) X0_def nrm_def g0_def Wn_def gi gc] by blast
    have bL: "\<forall>x\<in>?RL. x \<le> L" using rasterSet_props(3)[OF ps(1) order_refl] by blast
    have bW: "\<forall>y\<in>?RW. y \<le> Wn" using rasterSet_props(3)[OF ps(1) cc(1)] by blast
    obtain out where o: "drawBlocks (draw (Suc k) g l w) L Wn ?bs [] = Some out"
        "int (length out) = int (length ([] :: box list)) + (\<Sum>b\<leftarrow>?bs. lowerBound_macro (fst b) (fst (snd b)) l w)"
      using drawBlocks_count[of ?RL ?RW L Wn "draw (Suc k) g l w" l w ?bs "[]", OF dr bL bW cc(1) good]
      by blast
    have V: "\<forall>b\<in>set blocks. nrm ! fst b \<in> ?RL \<and> nrm ! snd b \<in> ?RW"
      using pa unfolding partitionsAgree_def by blast
    have "(\<Sum>b\<leftarrow>?bs. lowerBound_macro (fst b) (fst (snd b)) l w)
        = (\<Sum>b\<leftarrow>blocks. lowerBound_macro (nrm ! fst b) (nrm ! snd b) l w)"
      using pa unfolding partitionsAgree_def by simp
    also have "\<dots> = blockCount g0 blocks"
      using blockCount_macro[OF assms(1,2,3) X0_def nrm_def g0_def Wn_def V] by simp
    finally have "int (length out) = z" using o(2) cut(3) by simp
    then show ?thesis using dn o(1) by simp
  qed
qed

text \<open>\<open>solve_BD\<close> on a pallet with \<open>W \<le> L\<close>: it returns, and the state it leaves is the one
  described by \<open>cutState\<close>, up to the final assignment to \<open>lowerBound\<close>.\<close>

lemma solve_BD_state:
  assumes "W \<le> L"
    and N_def: "N = (if N_max \<le> 0 then INFINITY_C else N_max)"
    and g0_def: "g0 = initialize N L W l w"
  shows "\<exists>z g1. solve_BD L W l w N_max =
            Some (z, writeLowerBound g1 (idx (indexX g1) (normalize g0 ! L)) (idx (indexY g1) (normalize g0 ! W)) z) \<and>
           cutState g0 (normalize g0 ! L) (normalize g0 ! W) z g1"
proof -
  have cap: "\<not> N < depthN g0" by (simp add: g0_def initialize_fields)
  have wl: "normalize g0 ! W \<le> normalize g0 ! L"
    unfolding g0_def using initialize_ordered[OF assms(1)] .
  obtain z g1 where b: "BD_body (BD 0) (normalize g0 ! L) (normalize g0 ! W) N g0 = Some (z, g1)"
      "cutState g0 (normalize g0 ! L) (normalize g0 ! W) z g1"
    using BD_body_at_cap_state[OF cap wl] by blast
  have "solve_BD L W l w N_max =
          Some (z, writeLowerBound g1 (idx (indexX g1) (normalize g0 ! L)) (idx (indexY g1) (normalize g0 ! W)) z)"
    using assms(1) b(1) unfolding solve_BD_def Let_def N_def[symmetric] g0_def by simp
  then show ?thesis using b(2) by blast
qed

text \<open>\<open>solve_BD\<close> followed by \<open>drawBD\<close> on the normalized pallet: two nested calls of \<open>draw\<close>
  are enough, and the number of boxes drawn is the count that \<open>solve_BD\<close> returned.\<close>

lemma reconstruction_count:
  assumes "W \<le> L" and "0 < l" and "0 < w"
  shows "\<exists>n g boxes. solve_BD L W l w N_max = Some (n, g) \<and>
           drawBD (Suc (Suc k)) g l w (normalize g ! L) (normalize g ! W) [] = Some boxes \<and>
           int (length boxes) = n"
proof -
  define N where "N = (if N_max \<le> 0 then INFINITY_C else N_max)"
  define X0 where "X0 = constructConicCombinations L l w"
  define nrm where "nrm = buildNormalize L X0"
  define g0 where "g0 = initialize N L W l w"
  define Wn where "Wn = nrm ! W"
  note ps = initialize_points_set[OF assms(1,2,3) X0_def nrm_def g0_def]
  obtain z g1 where s: "solve_BD L W l w N_max =
            Some (z, writeLowerBound g1 (idx (indexX g1) (normalize g0 ! L)) (idx (indexY g1) (normalize g0 ! W)) z)"
      "cutState g0 (normalize g0 ! L) (normalize g0 ! W) z g1"
    using solve_BD_state[OF assms(1) N_def g0_def] by blast
  define g where "g = writeLowerBound g1 (idx (indexX g1) (normalize g0 ! L)) (idx (indexY g1) (normalize g0 ! W)) z"
  have st: "cutState g0 L Wn z g1" using s(2) by (simp add: ps(2,3) Wn_def)
  have gn: "normalize g = nrm"
    using st ps(2) by (simp add: g_def writeLowerBound_def cutState_def sameBounds_def)
  obtain out where o: "drawBD (Suc (Suc k)) g l w L Wn [] = Some out" "int (length out) = z"
    using draw_top[OF assms(1,2,3) X0_def nrm_def g0_def Wn_def st g_def] by blast
  have "drawBD (Suc (Suc k)) g l w (normalize g ! L) (normalize g ! W) [] = Some out"
    using o(1) by (simp add: gn ps(3) Wn_def)
  then show ?thesis using s(1) o(2) unfolding g_def[symmetric] by blast
qed

text \<open>
  C1.  For positive dimensions \<open>pack\<close> runs \<open>solve_BD\<close> on the pallet with the longer side
  first, which returns a count \<open>n_BD\<close>, and goes straight to the reconstruction of the
  five-block solution (\<open>draw\<close> with \<open>solvedWithL = false\<close>); it does not run the L-solver.
  The reconstruction returns (two nested calls of \<open>draw\<close> are enough), it draws exactly
  \<open>n_BD\<close> boxes, and \<open>pack\<close> returns the placements of exactly these boxes.
\<close>

theorem C1_count_is_BD_count:
  assumes "0 < inL" and "0 < inW" and "0 < inl" and "0 < inw" and "2 \<le> k"
  shows "\<exists>n g boxes.
           solve_BD (nat (max inL inW)) (nat (min inL inW)) (nat inl) (nat inw) 0 = Some (n, g) \<and>
           drawBD k g (nat inl) (nat inw) (normalize g ! nat (max inL inW))
             (normalize g ! nat (min inL inW)) [] = Some boxes \<and>
           int (length boxes) = n \<and>
           pack k inL inW inl inw
             = Some (Inr (map (placementOf (nat inl) (nat inw) (inL < inW)) boxes))"
proof -
  define L where "L = nat (if inL < inW then inW else inL)"
  define W where "W = nat (if inL < inW then inL else inW)"
  have wl: "W \<le> L" by (auto simp: L_def W_def nat_le_eq_zle)
  have mm: "nat (max inL inW) = L" "nat (min inL inW) = W" by (auto simp: L_def W_def)
  have pos: "0 < nat inl" "0 < nat inw" using assms(3,4) by simp_all
  obtain k' where k: "k = Suc (Suc k')" using assms(5) by (metis Suc_le_D numeral_2_eq_2 Suc_le_mono)
  obtain n g boxes where r: "solve_BD L W (nat inl) (nat inw) 0 = Some (n, g)"
      "drawBD (Suc (Suc k')) g (nat inl) (nat inw) (normalize g ! L) (normalize g ! W) [] = Some boxes"
      "int (length boxes) = n"
    using reconstruction_count[OF wl pos] by blast
  have len: "nat n = length boxes" using r(3) by simp
  have "map (\<lambda>i. placementOf (nat inl) (nat inw) (inL < inW) (boxes ! i)) [0..<length boxes]
          = map (placementOf (nat inl) (nat inw) (inL < inW)) boxes"
    by (simp add: map_equality_iff)
  then have "pack k inL inW inl inw = Some (Inr (map (placementOf (nat inl) (nat inw) (inL < inW)) boxes))"
    using assms(1,2,3,4) r(1,2) len
    by (simp add: pack_def Let_def L_def[symmetric] W_def[symmetric] MakeJsonString_def k)
  then show ?thesis using r unfolding mm k by blast
qed

lemma pack_8_7_3_2: "map_option (map_sum id length) (pack 2 8 7 3 2) = Some (Inr 8)"
  by code_simp

theorem C1_count_is_BD_count_witness:
  "\<exists>n g boxes. solve_BD 8 7 3 2 0 = Some (n, g) \<and>
     drawBD 2 g 3 2 (normalize g ! 8) (normalize g ! 7) [] = Some boxes \<and>
     int (length boxes) = n \<and> n = 8 \<and>
     pack 2 8 7 3 2 = Some (Inr (map (placementOf 3 2 False) boxes))"
proof -
  obtain n g boxes where r: "solve_BD 8 7 3 2 0 = Some (n, g)"
      "drawBD 2 g 3 2 (normalize g ! 8) (normalize g ! 7) [] = Some boxes"
      "int (length boxes) = n"
      "pack 2 8 7 3 2 = Some (Inr (map (placementOf 3 2 False) boxes))"
    using C1_count_is_BD_count[of 8 7 3 2 2] by auto
  have "length boxes = 8" using pack_8_7_3_2 r(4) by simp
  then show ?thesis using r by auto
qed

text \<open>
  The claim as stated, with the L-solver run after \<open>solve_BD\<close> and the larger count
  returned, fails on the pallet \<open>8 \<times> 7\<close> with boxes \<open>3 \<times> 2\<close>: \<open>pack\<close> returns 8 placements,
  the count of \<open>solve_BD\<close>, while the L-solver started on the whole pallet finds 9.
\<close>

theorem C1_counterexample:
  "map_option (map_sum id length) (pack 2 8 7 3 2) = Some (Inr 8) \<and>
   map_option fst (solve_BD 8 7 3 2 0) = Some 8 \<and>
   L_solver_count 4 4 8 7 3 2 = Some 9"
  by code_simp

end
